theory Spec2Isabelle
  imports Main "HOL-Library.Word" "HOL-Library.Signed_Division"
begin

section \<open>The buffer replacement strategy of freelist.c\<close>

text \<open>
  A shallow embedding of \<^verbatim>\<open>src/backend/storage/buffer/freelist.c\<close>: the shared strategy
  control block, the buffer descriptors it links into a freelist and into two victim
  queues, the four replacement policies of \<^verbatim>\<open>StrategyGetBuffer\<close>, the unpin hook
  \<^verbatim>\<open>BufferUnpinned\<close>, \<^verbatim>\<open>StrategyFreeBuffer\<close> and the backend-private buffer rings.

  A pointer to a buffer descriptor is the index of the descriptor in the array
  \<^verbatim>\<open>BufferDescriptors\<close>, or \<open>None\<close> for \<^verbatim>\<open>NULL\<close>. The array is a store from addresses to
  descriptors, so that two pointers to one descriptor alias as they do in C. What C
  leaves undefined is a value of the type \<open>error\<close>: dereferencing \<^verbatim>\<open>NULL\<close>, and indexing
  the array outside \<open>0 .. NBuffers - 1\<close>. A loop that follows links may run forever on
  a cyclic chain, so the loops are partial functions into \<open>option\<close> and \<open>None\<close> is a call
  that does not return. \<^verbatim>\<open>Assert\<close> is compiled out, as in a production build.
\<close>

subsection \<open>Data\<close>

type_synonym Buffer = int
type_synonym Latch = nat

text \<open>
  Modelled from the spec: the sentinels of \<^verbatim>\<open>storage/buf_internals.h\<close> and
  \<^verbatim>\<open>storage/buf.h\<close>, which are not among the sources. The freelist ends with \<open>-1\<close>
  ("sentinel \<open>-1\<close> for empty"), a frame outside the freelist carries
  \<^verbatim>\<open>FREENEXT_NOT_IN_LIST\<close>, and a ring slot that was never filled holds \<^verbatim>\<open>InvalidBuffer\<close>
  ("that is, zero", as the comment on the ring says). Buffer numbers count from one:
  the ring reads \<^verbatim>\<open>BufferDescriptors[bufnum - 1]\<close>.
\<close>

definition FREENEXT_END_OF_LIST :: int where
  "FREENEXT_END_OF_LIST = - 1"

definition FREENEXT_NOT_IN_LIST :: int where
  "FREENEXT_NOT_IN_LIST = - 2"

definition InvalidBuffer :: Buffer where
  "InvalidBuffer = 0"

record BufferDesc =
  buf_id :: int
  refcount :: nat
  usage_count :: nat
  freeNext :: int
  previous :: "nat option"
  next_ptr :: "nat option"
  buf_hdr_lock :: bool

definition BufferDescriptorGetBuffer :: "BufferDesc \<Rightarrow> Buffer" where
  "BufferDescriptorGetBuffer bdesc = buf_id bdesc + 1"

text \<open>
  \<^verbatim>\<open>BufferReplacementPolicy\<close> is a C \<^verbatim>\<open>int\<close>: besides the four enumerators it can hold a
  value that is none of them, which \<open>POLICY_OTHER\<close> stands for.
\<close>

datatype PolicyKind = POLICY_CLOCK | POLICY_LRU | POLICY_MRU | POLICY_2Q | POLICY_OTHER int

record BufferStrategyControl =
  nextVictimBuffer :: int
  firstFreeBuffer :: int
  lastFreeBuffer :: int
  completePasses :: "32 word"
  numBufferAllocs :: "32 word"
  bgwriterLatch :: "Latch option"
  lastUnpinned :: "nat option"
  firstUnpinned :: "nat option"
  a1Head :: "nat option"
  a1Tail :: "nat option"

datatype BufferAccessStrategyType = BAS_NORMAL | BAS_BULKREAD | BAS_BULKWRITE | BAS_VACUUM

record BufferAccessStrategyData =
  btype :: BufferAccessStrategyType
  ring_size :: int
  current :: int
  current_was_in_ring :: bool
  buffers :: "int \<Rightarrow> Buffer"

text \<open>
  The shared memory and the process globals the file works on. \<open>BufFreelistLock\<close> is
  true while the lightweight lock is held; \<open>latches_set\<close> records the calls of
  \<^verbatim>\<open>SetLatch\<close>, latest first.
\<close>

record world =
  BufferDescriptors :: "nat \<Rightarrow> BufferDesc"
  NBuffers :: int
  StrategyControl :: BufferStrategyControl
  BufferReplacementPolicy :: PolicyKind
  BufFreelistLock :: bool
  latches_set :: "Latch list"

datatype error =
    NoUnpinnedBuffers
  | InvalidPolicy
  | NoBufferSelected
  | NullPointerDereference
  | BufferIndexOutOfRange

subsection \<open>Primitive steps\<close>

definition upd_ctl :: "(BufferStrategyControl \<Rightarrow> BufferStrategyControl) \<Rightarrow> world \<Rightarrow> world" where
  "upd_ctl f w = w\<lparr>StrategyControl := f (StrategyControl w)\<rparr>"

definition upd_buf :: "nat \<Rightarrow> (BufferDesc \<Rightarrow> BufferDesc) \<Rightarrow> world \<Rightarrow> world" where
  "upd_buf b f w = w\<lparr>BufferDescriptors := (BufferDescriptors w)(b := f (BufferDescriptors w b))\<rparr>"

definition set_next :: "nat \<Rightarrow> nat option \<Rightarrow> world \<Rightarrow> world" where
  "set_next b v w = upd_buf b (\<lambda>d. d\<lparr>next_ptr := v\<rparr>) w"

definition set_previous :: "nat \<Rightarrow> nat option \<Rightarrow> world \<Rightarrow> world" where
  "set_previous b v w = upd_buf b (\<lambda>d. d\<lparr>previous := v\<rparr>) w"

definition LockBufHdr :: "nat \<Rightarrow> world \<Rightarrow> world" where
  "LockBufHdr b w = upd_buf b (\<lambda>d. d\<lparr>buf_hdr_lock := True\<rparr>) w"

definition UnlockBufHdr :: "nat \<Rightarrow> world \<Rightarrow> world" where
  "UnlockBufHdr b w = upd_buf b (\<lambda>d. d\<lparr>buf_hdr_lock := False\<rparr>) w"

definition LWLockAcquire :: "world \<Rightarrow> world" where
  "LWLockAcquire w = w\<lparr>BufFreelistLock := True\<rparr>"

definition LWLockRelease :: "world \<Rightarrow> world" where
  "LWLockRelease w = w\<lparr>BufFreelistLock := False\<rparr>"

definition SetLatch :: "Latch \<Rightarrow> world \<Rightarrow> world" where
  "SetLatch l w = w\<lparr>latches_set := l # latches_set w\<rparr>"

definition valid_index :: "world \<Rightarrow> int \<Rightarrow> bool" where
  "valid_index w i \<longleftrightarrow> 0 \<le> i \<and> i < NBuffers w"

subsection \<open>Buffer rings\<close>

definition GetBufferFromRing ::
  "BufferAccessStrategyData \<Rightarrow> world \<Rightarrow> (error + nat option) \<times> BufferAccessStrategyData \<times> world" where
  "GetBufferFromRing strategy w =
    (let strategy = strategy\<lparr>current := current strategy + 1\<rparr>;
         strategy = (if current strategy \<ge> ring_size strategy
                     then strategy\<lparr>current := 0\<rparr> else strategy);
         bufnum = buffers strategy (current strategy)
     in if bufnum = InvalidBuffer
        then (Inr None, strategy\<lparr>current_was_in_ring := False\<rparr>, w)
        else if \<not> valid_index w (bufnum - 1)
        then (Inl BufferIndexOutOfRange, strategy, w)
        else
          let buf = nat (bufnum - 1);
              w = LockBufHdr buf w
          in if refcount (BufferDescriptors w buf) = 0 \<and> usage_count (BufferDescriptors w buf) \<le> 1
             then (Inr (Some buf), strategy\<lparr>current_was_in_ring := True\<rparr>, w)
             else (Inr None, strategy\<lparr>current_was_in_ring := False\<rparr>, UnlockBufHdr buf w))"

definition AddBufferToRing :: "nat \<Rightarrow> world \<Rightarrow> BufferAccessStrategyData \<Rightarrow> BufferAccessStrategyData" where
  "AddBufferToRing buf w strategy =
     strategy\<lparr>buffers := (buffers strategy)
        (current strategy := BufferDescriptorGetBuffer (BufferDescriptors w buf))\<rparr>"

definition StrategyRejectBuffer ::
  "BufferAccessStrategyData \<Rightarrow> BufferDesc \<Rightarrow> bool \<times> BufferAccessStrategyData" where
  "StrategyRejectBuffer strategy buf =
    (if btype strategy \<noteq> BAS_BULKREAD then (False, strategy)
     else if \<not> current_was_in_ring strategy \<or>
             buffers strategy (current strategy) \<noteq> BufferDescriptorGetBuffer buf
     then (False, strategy)
     else (True, strategy\<lparr>buffers := (buffers strategy)(current strategy := InvalidBuffer)\<rparr>))"

subsection \<open>StrategyGetBuffer\<close>

type_synonym get_result =
  "(error + nat \<times> bool) \<times> BufferAccessStrategyData option \<times> world"

text \<open>The loop that pops the freelist; \<open>Inr None\<close> is the loop left with the list empty.\<close>

partial_function (option) freelist_loop ::
  "BufferAccessStrategyData option \<Rightarrow> world \<Rightarrow>
   ((error + nat option) \<times> BufferAccessStrategyData option \<times> world) option" where
  "freelist_loop strategy w =
    (if firstFreeBuffer (StrategyControl w) \<ge> 0 then
       (if \<not> valid_index w (firstFreeBuffer (StrategyControl w))
        then Some (Inl BufferIndexOutOfRange, strategy, w)
        else
          let buf = nat (firstFreeBuffer (StrategyControl w));
              w = upd_ctl (\<lambda>c. c\<lparr>firstFreeBuffer := freeNext (BufferDescriptors w buf)\<rparr>) w;
              w = upd_buf buf (\<lambda>d. d\<lparr>freeNext := FREENEXT_NOT_IN_LIST\<rparr>) w;
              w = LockBufHdr buf w
          in if refcount (BufferDescriptors w buf) = 0 \<and> usage_count (BufferDescriptors w buf) = 0
             then Some (Inr (Some buf), map_option (AddBufferToRing buf w) strategy, w)
             else freelist_loop strategy (UnlockBufHdr buf w))
     else Some (Inr None, strategy, w))"

text \<open>The clock hand moves on by one frame and wraps at the end of the pool.\<close>

definition advance_hand :: "world \<Rightarrow> world" where
  "advance_hand w =
    (let w = upd_ctl (\<lambda>c. c\<lparr>nextVictimBuffer := nextVictimBuffer c + 1\<rparr>) w
     in if nextVictimBuffer (StrategyControl w) \<ge> NBuffers w
        then upd_ctl (\<lambda>c. c\<lparr>nextVictimBuffer := 0, completePasses := completePasses c + 1\<rparr>) w
        else w)"

text \<open>
  The clock sweep. \<open>trycounter\<close> is a C \<^verbatim>\<open>int\<close> that the loop only ever holds between
  \<open>1\<close> and \<open>NBuffers\<close>, so it does not overflow.
\<close>

partial_function (option) clock_sweep ::
  "BufferAccessStrategyData option \<Rightarrow> int \<Rightarrow> world \<Rightarrow>
   ((error + nat) \<times> BufferAccessStrategyData option \<times> world) option" where
  "clock_sweep strategy trycounter w =
    (if \<not> valid_index w (nextVictimBuffer (StrategyControl w))
     then Some (Inl BufferIndexOutOfRange, strategy, w)
     else
       let buf = nat (nextVictimBuffer (StrategyControl w));
           w = advance_hand w;
           w = LockBufHdr buf w
       in if refcount (BufferDescriptors w buf) = 0 then
            (if usage_count (BufferDescriptors w buf) > 0
             then clock_sweep strategy (NBuffers w)
                    (UnlockBufHdr buf
                       (upd_buf buf (\<lambda>d. d\<lparr>usage_count := usage_count d - 1\<rparr>) w))
             else Some (Inr buf, map_option (AddBufferToRing buf w) strategy, w))
          else if trycounter - 1 = 0
          then Some (Inl NoUnpinnedBuffers, strategy, UnlockBufHdr buf w)
          else clock_sweep strategy (trycounter - 1) (UnlockBufHdr buf w))"

text \<open>
  The walks of \<^verbatim>\<open>POLICY_LRU\<close> (along \<^verbatim>\<open>next\<close>) and \<^verbatim>\<open>POLICY_MRU\<close> (along \<^verbatim>\<open>previous\<close>). The
  result is the value of \<^verbatim>\<open>buf\<close> when the loop is left: the frame it stopped at, with
  its header locked, or \<^verbatim>\<open>NULL\<close>.
\<close>

partial_function (option) lru_scan :: "world \<Rightarrow> nat option \<Rightarrow> (nat option \<times> world) option" where
  "lru_scan w buf =
    (case buf of
       None \<Rightarrow> Some (None, w)
     | Some b \<Rightarrow>
         let w = LockBufHdr b w
         in if refcount (BufferDescriptors w b) = 0 then Some (Some b, w)
            else let w = UnlockBufHdr b w in lru_scan w (next_ptr (BufferDescriptors w b)))"

partial_function (option) mru_scan :: "world \<Rightarrow> nat option \<Rightarrow> (nat option \<times> world) option" where
  "mru_scan w buf =
    (case buf of
       None \<Rightarrow> Some (None, w)
     | Some b \<Rightarrow>
         let w = LockBufHdr b w
         in if refcount (BufferDescriptors w b) = 0 then Some (Some b, w)
            else let w = UnlockBufHdr b w in mru_scan w (previous (BufferDescriptors w b)))"

text \<open>The walk of \<^verbatim>\<open>POLICY_2Q\<close> that counts the A1 queue.\<close>

partial_function (option) a1_size :: "world \<Rightarrow> nat option \<Rightarrow> int \<Rightarrow> int option" where
  "a1_size w head sizeA1 =
    (case head of
       None \<Rightarrow> Some sizeA1
     | Some h \<Rightarrow> a1_size w (next_ptr (BufferDescriptors w h)) (sizeA1 + 1))"

text \<open>
  The body both 2Q scans run on the first frame with \<open>refcount = 0\<close>: the frame is taken
  out of its queue, in the four cases of the source.
\<close>

definition unlink_a1 :: "nat \<Rightarrow> world \<Rightarrow> world" where
  "unlink_a1 buf w =
    (let nxt = next_ptr (BufferDescriptors w buf);
         prv = previous (BufferDescriptors w buf);
         w = (case nxt of
                Some n \<Rightarrow>
                  (case prv of
                     Some p \<Rightarrow> set_previous n (Some p) (set_next p (Some n) w)
                   | None \<Rightarrow> upd_ctl (\<lambda>c. c\<lparr>a1Head := Some n\<rparr>) (set_previous n None w))
              | None \<Rightarrow>
                  (case prv of
                     None \<Rightarrow> upd_ctl (\<lambda>c. c\<lparr>a1Head := None, a1Tail := None\<rparr>) w
                   | Some p \<Rightarrow> set_next p None (upd_ctl (\<lambda>c. c\<lparr>a1Tail := Some p\<rparr>) w)))
     in set_previous buf None (set_next buf None w))"

definition unlink_am :: "nat \<Rightarrow> world \<Rightarrow> world" where
  "unlink_am buf w =
    (let nxt = next_ptr (BufferDescriptors w buf);
         prv = previous (BufferDescriptors w buf);
         w = (case nxt of
                Some n \<Rightarrow>
                  (case prv of
                     Some p \<Rightarrow> set_previous n (Some p) (set_next p (Some n) w)
                   | None \<Rightarrow> upd_ctl (\<lambda>c. c\<lparr>firstUnpinned := Some n\<rparr>) (set_previous n None w))
              | None \<Rightarrow>
                  (case prv of
                     None \<Rightarrow> upd_ctl (\<lambda>c. c\<lparr>firstUnpinned := None, lastUnpinned := None\<rparr>) w
                   | Some p \<Rightarrow> upd_ctl (\<lambda>c. c\<lparr>lastUnpinned := Some p\<rparr>) (set_next p None w)))
     in set_previous buf None (set_next buf None w))"

text \<open>
  The two eviction scans of 2Q. Neither takes the header lock. The result is the value
  of \<^verbatim>\<open>buf\<close> when the loop is left, and \<^verbatim>\<open>resultIndex\<close>.
\<close>

partial_function (option) scan_a1 :: "world \<Rightarrow> nat option \<Rightarrow> (nat option \<times> int \<times> world) option" where
  "scan_a1 w buf =
    (case buf of
       None \<Rightarrow> Some (None, - 1, w)
     | Some b \<Rightarrow>
         if refcount (BufferDescriptors w b) = 0
         then Some (Some b, buf_id (BufferDescriptors w b), unlink_a1 b w)
         else scan_a1 w (next_ptr (BufferDescriptors w b)))"

partial_function (option) scan_am :: "world \<Rightarrow> nat option \<Rightarrow> (nat option \<times> int \<times> world) option" where
  "scan_am w buf =
    (case buf of
       None \<Rightarrow> Some (None, - 1, w)
     | Some b \<Rightarrow>
         if refcount (BufferDescriptors w b) = 0
         then Some (Some b, buf_id (BufferDescriptors w b), unlink_am b w)
         else scan_am w (next_ptr (BufferDescriptors w b)))"

text \<open>The end of the function: \<^verbatim>\<open>resultIndex\<close> is checked and turned into a descriptor.\<close>

definition return_result :: "int \<Rightarrow> BufferAccessStrategyData option \<Rightarrow> world \<Rightarrow> get_result" where
  "return_result resultIndex strategy w =
    (if resultIndex = - 1 then (Inl NoBufferSelected, strategy, w)
     else if \<not> valid_index w resultIndex then (Inl BufferIndexOutOfRange, strategy, w)
     else (Inr (nat resultIndex, True), strategy, w))"

text \<open>The policy branch, run with the freelist lock held and the freelist drained.\<close>

definition select_victim :: "BufferAccessStrategyData option \<Rightarrow> world \<Rightarrow> get_result option" where
  "select_victim strategy w =
    (case BufferReplacementPolicy w of
       POLICY_CLOCK \<Rightarrow>
         (case clock_sweep strategy (NBuffers w) w of
            None \<Rightarrow> None
          | Some (Inl e, strategy, w) \<Rightarrow> Some (Inl e, strategy, w)
          | Some (Inr buf, strategy, w) \<Rightarrow> Some (Inr (buf, True), strategy, w))
     | POLICY_LRU \<Rightarrow>
         (case lru_scan w (firstUnpinned (StrategyControl w)) of
            None \<Rightarrow> None
          | Some (None, w) \<Rightarrow> Some (Inl NullPointerDereference, strategy, w)
          | Some (Some b, w) \<Rightarrow> Some (return_result (buf_id (BufferDescriptors w b)) strategy w))
     | POLICY_MRU \<Rightarrow>
         (case mru_scan w (lastUnpinned (StrategyControl w)) of
            None \<Rightarrow> None
          | Some (None, w) \<Rightarrow> Some (Inl NullPointerDereference, strategy, w)
          | Some (Some b, w) \<Rightarrow> Some (return_result (buf_id (BufferDescriptors w b)) strategy w))
     | POLICY_2Q \<Rightarrow>
         (let thres = NBuffers w sdiv 2
          in case a1_size w (a1Head (StrategyControl w)) 0 of
               None \<Rightarrow> None
             | Some sizeA1 \<Rightarrow>
                 if sizeA1 \<ge> thres \<or> lastUnpinned (StrategyControl w) = None
                 then (case scan_a1 w (a1Head (StrategyControl w)) of
                         None \<Rightarrow> None
                       | Some (None, resultIndex, w) \<Rightarrow> Some (Inl NoUnpinnedBuffers, strategy, w)
                       | Some (Some b, resultIndex, w) \<Rightarrow> Some (return_result resultIndex strategy w))
                 else (case scan_am w (firstUnpinned (StrategyControl w)) of
                         None \<Rightarrow> None
                       | Some (None, resultIndex, w) \<Rightarrow> Some (Inl NoUnpinnedBuffers, strategy, w)
                       | Some (Some b, resultIndex, w) \<Rightarrow> Some (return_result resultIndex strategy w)))
     | POLICY_OTHER n \<Rightarrow> Some (Inl InvalidPolicy, strategy, w))"

text \<open>
  The freelist lock is taken, the allocation is counted, and a waiting background writer
  is woken with the lock released around the call of \<^verbatim>\<open>SetLatch\<close>.
\<close>

definition lock_and_count :: "world \<Rightarrow> world" where
  "lock_and_count w =
    (let w = LWLockAcquire w;
         w = upd_ctl (\<lambda>c. c\<lparr>numBufferAllocs := numBufferAllocs c + 1\<rparr>) w
     in case bgwriterLatch (StrategyControl w) of
          None \<Rightarrow> w
        | Some l \<Rightarrow>
            LWLockAcquire (SetLatch l (LWLockRelease
              (upd_ctl (\<lambda>c. c\<lparr>bgwriterLatch := None\<rparr>) w))))"

text \<open>The part of the function that runs once the ring gave nothing.\<close>

definition get_buffer_global :: "BufferAccessStrategyData option \<Rightarrow> world \<Rightarrow> get_result option" where
  "get_buffer_global strategy w =
    (case freelist_loop strategy (lock_and_count w) of
       None \<Rightarrow> None
     | Some (Inl e, strategy, w) \<Rightarrow> Some (Inl e, strategy, w)
     | Some (Inr (Some buf), strategy, w) \<Rightarrow> Some (Inr (buf, True), strategy, w)
     | Some (Inr None, strategy, w) \<Rightarrow> select_victim strategy w)"

definition StrategyGetBuffer :: "BufferAccessStrategyData option \<Rightarrow> world \<Rightarrow> get_result option" where
  "StrategyGetBuffer strategy w =
    (case strategy of
       None \<Rightarrow> get_buffer_global None w
     | Some s \<Rightarrow>
         (case GetBufferFromRing s w of
            (Inl e, s, w) \<Rightarrow> Some (Inl e, Some s, w)
          | (Inr (Some buf), s, w) \<Rightarrow> Some (Inr (buf, False), Some s, w)
          | (Inr None, s, w) \<Rightarrow> get_buffer_global (Some s) w))"

subsection \<open>BufferUnpinned\<close>

text \<open>
  The walk of the two membership loops of the 2Q branch: from \<open>head\<close> along \<^verbatim>\<open>next\<close>
  until \<open>buf\<close> or \<^verbatim>\<open>NULL\<close> is met. Each loop runs its body and returns when it meets
  \<open>buf\<close>.
\<close>

partial_function (option) queue_walk :: "world \<Rightarrow> nat option \<Rightarrow> nat \<Rightarrow> bool option" where
  "queue_walk w head buf =
    (case head of
       None \<Rightarrow> Some False
     | Some h \<Rightarrow> if h = buf then Some True
                 else queue_walk w (next_ptr (BufferDescriptors w h)) buf)"

text \<open>
  The statements run when \<^verbatim>\<open>next != NULL\<close>, in the main-queue case of 2Q and in the
  branch of the other policies alike: \<open>buf\<close> is spliced out and put behind \<^verbatim>\<open>last\<close>, which
  is dereferenced unchecked.
\<close>

definition move_to_tail ::
  "nat \<Rightarrow> nat option \<Rightarrow> nat option \<Rightarrow> nat \<Rightarrow> world \<Rightarrow> (error + unit) \<times> world" where
  "move_to_tail buf last' prv n w =
    (let w = (case prv of
                Some p \<Rightarrow> set_previous n (Some p) (set_next p (Some n) w)
              | None \<Rightarrow> upd_ctl (\<lambda>c. c\<lparr>firstUnpinned := Some n\<rparr>) (set_previous n None w))
     in case last' of
          None \<Rightarrow> (Inl NullPointerDereference, w)
        | Some l \<Rightarrow>
            let w = set_next l (Some buf) w;
                w = set_previous buf last' w;
                w = set_next buf None w;
                w = upd_ctl (\<lambda>c. c\<lparr>lastUnpinned := Some buf\<rparr>) w
            in (Inr (), w))"

text \<open>The body of the A1 loop: out of A1 in four cases, each followed by the same append.\<close>

definition promote_from_a1 ::
  "nat \<Rightarrow> nat option \<Rightarrow> nat option \<Rightarrow> nat option \<Rightarrow> nat option \<Rightarrow> world \<Rightarrow> world" where
  "promote_from_a1 buf first' last' prv nxt w =
    (let w = (case nxt of
                Some n \<Rightarrow>
                  (case prv of
                     Some p \<Rightarrow> set_previous n (Some p) (set_next p (Some n) w)
                   | None \<Rightarrow> upd_ctl (\<lambda>c. c\<lparr>a1Head := Some n\<rparr>) (set_previous n None w))
              | None \<Rightarrow>
                  (case prv of
                     None \<Rightarrow> upd_ctl (\<lambda>c. c\<lparr>a1Head := None, a1Tail := None\<rparr>) w
                   | Some p \<Rightarrow> set_next p None (upd_ctl (\<lambda>c. c\<lparr>a1Tail := Some p\<rparr>) w)));
         w = (case last' of
                None \<Rightarrow> upd_ctl (\<lambda>c. c\<lparr>firstUnpinned := Some buf\<rparr>) w
              | Some l \<Rightarrow>
                  if first' = None then upd_ctl (\<lambda>c. c\<lparr>firstUnpinned := Some buf\<rparr>) w
                  else set_next l (Some buf) w);
         w = set_previous buf last' w;
         w = set_next buf None w
     in upd_ctl (\<lambda>c. c\<lparr>lastUnpinned := Some buf\<rparr>) w)"

definition append_to_a1 :: "nat \<Rightarrow> world \<Rightarrow> world" where
  "append_to_a1 buf w =
    (let w = (case a1Tail (StrategyControl w) of
                None \<Rightarrow>
                  set_previous buf None
                    (upd_ctl (\<lambda>c. c\<lparr>a1Head := Some buf, a1Tail := Some buf\<rparr>) w)
              | Some t \<Rightarrow>
                  if a1Head (StrategyControl w) = None
                  then set_previous buf None
                         (upd_ctl (\<lambda>c. c\<lparr>a1Head := Some buf, a1Tail := Some buf\<rparr>) w)
                  else set_previous buf (Some t) (set_next t (Some buf) w));
         w = set_next buf None w
     in upd_ctl (\<lambda>c. c\<lparr>a1Tail := Some buf\<rparr>) w)"

text \<open>The last case of the branch of CLOCK, LRU and MRU: both links of \<open>buf\<close> are \<^verbatim>\<open>NULL\<close>.\<close>

definition append_new :: "nat \<Rightarrow> nat option \<Rightarrow> nat option \<Rightarrow> world \<Rightarrow> world" where
  "append_new buf first' last' w =
    (let w = (if first' = None then upd_ctl (\<lambda>c. c\<lparr>firstUnpinned := Some buf\<rparr>) w else w);
         w = set_previous buf last' w;
         w = set_next buf None w;
         w = (case last' of None \<Rightarrow> w | Some l \<Rightarrow> set_next l (Some buf) w)
     in upd_ctl (\<lambda>c. c\<lparr>lastUnpinned := Some buf\<rparr>) w)"

definition BufferUnpinned :: "int \<Rightarrow> world \<Rightarrow> ((error + unit) \<times> world) option" where
  "BufferUnpinned bufIndex w =
    (if \<not> valid_index w bufIndex then Some (Inl BufferIndexOutOfRange, w)
     else
       let buf = nat bufIndex;
           first' = firstUnpinned (StrategyControl w);
           last' = lastUnpinned (StrategyControl w);
           prv = previous (BufferDescriptors w buf);
           nxt = next_ptr (BufferDescriptors w buf)
       in if BufFreelistLock w then Some (Inr (), w)
          else
            let w = LWLockAcquire w
            in if BufferReplacementPolicy w = POLICY_2Q then
                 (case queue_walk w first' buf of
                    None \<Rightarrow> None
                  | Some True \<Rightarrow>
                      (case nxt of
                         None \<Rightarrow> Some (Inr (), LWLockRelease w)
                       | Some n \<Rightarrow>
                           (case move_to_tail buf last' prv n w of
                              (Inl e, w) \<Rightarrow> Some (Inl e, w)
                            | (Inr u, w) \<Rightarrow> Some (Inr (), LWLockRelease w)))
                  | Some False \<Rightarrow>
                      (case queue_walk w (a1Head (StrategyControl w)) buf of
                         None \<Rightarrow> None
                       | Some True \<Rightarrow>
                           Some (Inr (), LWLockRelease (promote_from_a1 buf first' last' prv nxt w))
                       | Some False \<Rightarrow> Some (Inr (), LWLockRelease (append_to_a1 buf w))))
               else
                 (case nxt of
                    Some n \<Rightarrow>
                      (case move_to_tail buf last' prv n w of
                         (Inl e, w) \<Rightarrow> Some (Inl e, w)
                       | (Inr u, w) \<Rightarrow> Some (Inr (), LWLockRelease w))
                  | None \<Rightarrow>
                      (case prv of
                         None \<Rightarrow> Some (Inr (), LWLockRelease (append_new buf first' last' w))
                       | Some p \<Rightarrow> Some (Inr (), LWLockRelease w))))"

subsection \<open>The other entry points\<close>

definition StrategyFreeBuffer :: "nat \<Rightarrow> world \<Rightarrow> world" where
  "StrategyFreeBuffer buf w =
    (let w = LWLockAcquire w;
         w = (if freeNext (BufferDescriptors w buf) = FREENEXT_NOT_IN_LIST then
                let w = upd_buf buf (\<lambda>d. d\<lparr>freeNext := firstFreeBuffer (StrategyControl w)\<rparr>) w;
                    w = (if freeNext (BufferDescriptors w buf) < 0
                         then upd_ctl (\<lambda>c. c\<lparr>lastFreeBuffer := buf_id (BufferDescriptors w buf)\<rparr>) w
                         else w)
                in upd_ctl (\<lambda>c. c\<lparr>firstFreeBuffer := buf_id (BufferDescriptors w buf)\<rparr>) w
              else w)
     in LWLockRelease w)"

text \<open>
  The two out-parameters of \<^verbatim>\<open>StrategySyncStart\<close> may be \<^verbatim>\<open>NULL\<close>: the flags say which are
  given, and the values written through them are returned.
\<close>

definition StrategySyncStart ::
  "bool \<Rightarrow> bool \<Rightarrow> world \<Rightarrow> (int \<times> 32 word option \<times> 32 word option) \<times> world" where
  "StrategySyncStart complete_passes num_buf_alloc w =
    (let w = LWLockAcquire w;
         result = nextVictimBuffer (StrategyControl w);
         passes = (if complete_passes then Some (completePasses (StrategyControl w)) else None);
         allocs = (if num_buf_alloc then Some (numBufferAllocs (StrategyControl w)) else None);
         w = (if num_buf_alloc then upd_ctl (\<lambda>c. c\<lparr>numBufferAllocs := 0\<rparr>) w else w)
     in ((result, passes, allocs), LWLockRelease w))"

definition StrategyNotifyBgWriter :: "Latch option \<Rightarrow> world \<Rightarrow> world" where
  "StrategyNotifyBgWriter latch w =
     LWLockRelease (upd_ctl (\<lambda>c. c\<lparr>bgwriterLatch := latch\<rparr>) (LWLockAcquire w))"

text \<open>
  \<open>found\<close> is the answer of \<^verbatim>\<open>ShmemInitStruct\<close>: whether the control block was there
  already.
\<close>

definition StrategyInitialize :: "bool \<Rightarrow> bool \<Rightarrow> world \<Rightarrow> world" where
  "StrategyInitialize found init w =
    (if \<not> found then
       upd_ctl (\<lambda>c. c\<lparr>firstFreeBuffer := 0, lastFreeBuffer := NBuffers w - 1,
                      nextVictimBuffer := 0, completePasses := 0, numBufferAllocs := 0,
                      bgwriterLatch := None, lastUnpinned := None, firstUnpinned := None,
                      a1Head := None, a1Tail := None\<rparr>) w
     else w)"

subsection \<open>Callers and runs\<close>

text \<open>
  Modelled from the spec: \<^verbatim>\<open>InitBufferPool\<close> of \<^verbatim>\<open>buf_init.c\<close>, which is not among the sources
  and which \<^verbatim>\<open>StrategyInitialize\<close> assumes has run. "Every frame begins in the freelist":
  frame \<open>i\<close> carries its own index, no pin, no usage, and the index of the next frame in
  \<^verbatim>\<open>freeNext\<close>, the last one the end-of-list sentinel; the queue links are nil. The
  control block is given zeroes, which \<^verbatim>\<open>StrategyInitialize\<close> overwrites.
\<close>

definition InitBufferPool :: "int \<Rightarrow> PolicyKind \<Rightarrow> world" where
  "InitBufferPool n policy =
    \<lparr>BufferDescriptors = (\<lambda>i. \<lparr>buf_id = int i, refcount = 0, usage_count = 0,
         freeNext = (if int i + 1 < n then int i + 1 else FREENEXT_END_OF_LIST),
         previous = None, next_ptr = None, buf_hdr_lock = False\<rparr>),
      NBuffers = n,
      StrategyControl = \<lparr>nextVictimBuffer = 0, firstFreeBuffer = 0, lastFreeBuffer = 0,
         completePasses = 0, numBufferAllocs = 0, bgwriterLatch = None, lastUnpinned = None,
         firstUnpinned = None, a1Head = None, a1Tail = None\<rparr>,
      BufferReplacementPolicy = policy, BufFreelistLock = False, latches_set = []\<rparr>"

text \<open>
  The pool of \<open>n\<close> frames once every frame has been handed out from the freelist and is
  pinned by its user: the freelist is empty, every frame has \<open>refcount = 1\<close> and
  \<open>usage_count = 1\<close>, and no frame was unpinned yet, so both victim queues are empty.
\<close>

definition drained_pool :: "int \<Rightarrow> PolicyKind \<Rightarrow> world" where
  "drained_pool n policy =
    (let w = StrategyInitialize False True (InitBufferPool n policy)
     in w\<lparr>BufferDescriptors := (\<lambda>i. (BufferDescriptors w i)\<lparr>freeNext := FREENEXT_NOT_IN_LIST,
              refcount := 1, usage_count := 1\<rparr>),
          StrategyControl := (StrategyControl w)\<lparr>firstFreeBuffer := FREENEXT_END_OF_LIST\<rparr>\<rparr>)"

text \<open>
  The calls into the file, and what its callers in the buffer manager do between them
  (modelled from the spec, the buffer manager not being among the sources): the pin
  manager writes \<open>refcount\<close> and \<open>usage_count\<close>, the caller of \<^verbatim>\<open>StrategyGetBuffer\<close> drops
  the header spinlock and the freelist lock, and another process may hold the freelist
  lock. A run stops with \<open>None\<close> when a call does not return.
\<close>

datatype call =
    Initialize
  | GetBuffer "BufferAccessStrategyData option"
  | FreeBuffer nat
  | OnUnpinned int
  | SyncStart bool bool
  | NotifyBgWriter "Latch option"
  | SetCounts nat nat nat
  | UnlockHdr nat
  | ReleaseFreelistLock
  | AcquireFreelistLock

fun step :: "call \<Rightarrow> world \<Rightarrow> world option" where
  "step Initialize w = Some (StrategyInitialize True False w)"
| "step (GetBuffer strategy) w = map_option (snd \<circ> snd) (StrategyGetBuffer strategy w)"
| "step (FreeBuffer buf) w = Some (StrategyFreeBuffer buf w)"
| "step (OnUnpinned bufIndex) w = map_option snd (BufferUnpinned bufIndex w)"
| "step (SyncStart complete_passes num_buf_alloc) w =
     Some (snd (StrategySyncStart complete_passes num_buf_alloc w))"
| "step (NotifyBgWriter latch) w = Some (StrategyNotifyBgWriter latch w)"
| "step (SetCounts buf rc uc) w = Some (upd_buf buf (\<lambda>d. d\<lparr>refcount := rc, usage_count := uc\<rparr>) w)"
| "step (UnlockHdr buf) w = Some (UnlockBufHdr buf w)"
| "step ReleaseFreelistLock w = Some (LWLockRelease w)"
| "step AcquireFreelistLock w = Some (LWLockAcquire w)"

fun run :: "call list \<Rightarrow> world \<Rightarrow> world option" where
  "run [] w = Some w"
| "run (c # cs) w = (case step c w of None \<Rightarrow> None | Some w' \<Rightarrow> run cs w')"

text \<open>The last pin on a frame is dropped and the hook is called.\<close>

definition unpin :: "nat \<Rightarrow> call list" where
  "unpin b = [SetCounts b 0 1, OnUnpinned (int b)]"

subsection \<open>What the claims speak of\<close>

text \<open>
  \<open>seg B p xs h t q\<close>: in the store \<open>B\<close> the frames \<open>xs\<close> are linked in this order, \<open>h\<close>
  points to the first of them and \<open>t\<close> to the last, the \<^verbatim>\<open>previous\<close> link of the first is
  \<open>p\<close> and the \<^verbatim>\<open>next\<close> link of the last is \<open>q\<close>, and neighbours point at each other.
  A queue is a segment between nil and nil without repetition.
\<close>

fun seg ::
  "(nat \<Rightarrow> BufferDesc) \<Rightarrow> nat option \<Rightarrow> nat list \<Rightarrow> nat option \<Rightarrow> nat option \<Rightarrow> nat option \<Rightarrow> bool" where
  "seg B p [] h t q \<longleftrightarrow> h = q \<and> t = p"
| "seg B p (x # xs) h t q \<longleftrightarrow>
     h = Some x \<and> previous (B x) = p \<and> seg B (Some x) xs (next_ptr (B x)) t q"

definition queue :: "(nat \<Rightarrow> BufferDesc) \<Rightarrow> nat list \<Rightarrow> nat option \<Rightarrow> nat option \<Rightarrow> bool" where
  "queue B xs head tail \<longleftrightarrow> seg B None xs head tail None \<and> distinct xs"

definition main_queue :: "world \<Rightarrow> nat list \<Rightarrow> bool" where
  "main_queue w xs \<longleftrightarrow>
     queue (BufferDescriptors w) xs (firstUnpinned (StrategyControl w)) (lastUnpinned (StrategyControl w))"

definition a1_queue :: "world \<Rightarrow> nat list \<Rightarrow> bool" where
  "a1_queue w xs \<longleftrightarrow>
     queue (BufferDescriptors w) xs (a1Head (StrategyControl w)) (a1Tail (StrategyControl w))"

text \<open>A frame is on a queue when the walk from the head along \<^verbatim>\<open>next\<close> meets it.\<close>

inductive on_queue :: "(nat \<Rightarrow> BufferDesc) \<Rightarrow> nat option \<Rightarrow> nat \<Rightarrow> bool" where
  here: "on_queue B (Some f) f"
| further: "on_queue B (next_ptr (B h)) f \<Longrightarrow> on_queue B (Some h) f"

definition in_freelist :: "world \<Rightarrow> nat \<Rightarrow> bool" where
  "in_freelist w f \<longleftrightarrow> freeNext (BufferDescriptors w f) \<noteq> FREENEXT_NOT_IN_LIST"

definition in_main :: "world \<Rightarrow> nat \<Rightarrow> bool" where
  "in_main w f \<longleftrightarrow> on_queue (BufferDescriptors w) (firstUnpinned (StrategyControl w)) f"

definition in_a1 :: "world \<Rightarrow> nat \<Rightarrow> bool" where
  "in_a1 w f \<longleftrightarrow> on_queue (BufferDescriptors w) (a1Head (StrategyControl w)) f"

definition in_at_most_one :: "nat \<Rightarrow> world \<Rightarrow> bool" where
  "in_at_most_one f w \<longleftrightarrow>
     \<not> (in_freelist w f \<and> in_main w f) \<and> \<not> (in_freelist w f \<and> in_a1 w f) \<and>
     \<not> (in_main w f \<and> in_a1 w f)"

text \<open>The queues of two worlds are the same: heads, tails and the links of every frame.\<close>

definition same_queues :: "world \<Rightarrow> world \<Rightarrow> bool" where
  "same_queues w w' \<longleftrightarrow>
     firstUnpinned (StrategyControl w') = firstUnpinned (StrategyControl w) \<and>
     lastUnpinned (StrategyControl w') = lastUnpinned (StrategyControl w) \<and>
     a1Head (StrategyControl w') = a1Head (StrategyControl w) \<and>
     a1Tail (StrategyControl w') = a1Tail (StrategyControl w) \<and>
     (\<forall>i. previous (BufferDescriptors w' i) = previous (BufferDescriptors w i) \<and>
          next_ptr (BufferDescriptors w' i) = next_ptr (BufferDescriptors w i))"

text \<open>
  Besides the queues, the policy, the size of the pool and the index every frame carries
  are the same.
\<close>

definition same_setup :: "world \<Rightarrow> world \<Rightarrow> bool" where
  "same_setup w w' \<longleftrightarrow>
     same_queues w w' \<and> BufferReplacementPolicy w' = BufferReplacementPolicy w \<and>
     NBuffers w' = NBuffers w \<and>
     (\<forall>i. buf_id (BufferDescriptors w' i) = buf_id (BufferDescriptors w i))"

text \<open>The slot \<^verbatim>\<open>GetBufferFromRing\<close> advances to.\<close>

definition next_slot :: "BufferAccessStrategyData \<Rightarrow> int" where
  "next_slot s = (if current s + 1 \<ge> ring_size s then 0 else current s + 1)"

text \<open>What a call of \<^verbatim>\<open>StrategyGetBuffer\<close> hands back: the frame, its pin count and its header lock.\<close>

definition returned_frame :: "get_result \<Rightarrow> error + nat \<times> nat \<times> bool" where
  "returned_frame r =
    (case r of
       (Inl e, strategy, w) \<Rightarrow> Inl e
     | (Inr (buf, lock_held), strategy, w) \<Rightarrow>
         Inr (buf, refcount (BufferDescriptors w buf), buf_hdr_lock (BufferDescriptors w buf)))"

text \<open>The pin count and the usage count of the frames listed.\<close>

definition counts :: "world \<Rightarrow> nat list \<Rightarrow> (nat \<times> nat) list" where
  "counts w fs = map (\<lambda>i. (refcount (BufferDescriptors w i), usage_count (BufferDescriptors w i))) fs"

text \<open>Head, tail and the two links of a frame of the main queue.\<close>

definition main_view :: "nat \<Rightarrow> world \<Rightarrow> nat option \<times> nat option \<times> nat option \<times> nat option" where
  "main_view f w =
    (firstUnpinned (StrategyControl w), lastUnpinned (StrategyControl w),
     previous (BufferDescriptors w f), next_ptr (BufferDescriptors w f))"

text \<open>
  The 2Q selection as the specification words it, on the two queues as lists, with \<open>n\<close>
  the number of frames and \<open>unpinned\<close> telling which frames have \<open>refcount = 0\<close>. "Let
  threshold = N/2. If |A1| \<ge> threshold, or if the main queue is empty, scan A1 from head
  toward tail and evict the first unpinned frame, removing it from A1. Otherwise scan
  the main queue from head toward tail and evict the first unpinned frame, removing it
  from the main queue. Fail with NoUnpinnedBuffers when the chosen scan yields nothing."
  The result is the victim or the failure, then the main queue and A1 afterwards.
\<close>

definition spec_select_2q ::
  "int \<Rightarrow> (nat \<Rightarrow> bool) \<Rightarrow> nat list \<Rightarrow> nat list \<Rightarrow> (error + nat) \<times> nat list \<times> nat list" where
  "spec_select_2q n unpinned ms as =
    (if int (length as) \<ge> n div 2 \<or> ms = [] then
       (case find unpinned as of
          None \<Rightarrow> (Inl NoUnpinnedBuffers, ms, as)
        | Some v \<Rightarrow> (Inr v, ms, remove1 v as))
     else
       (case find unpinned ms of
          None \<Rightarrow> (Inl NoUnpinnedBuffers, ms, as)
        | Some v \<Rightarrow> (Inr v, remove1 v ms, as)))"

text \<open>
  The unpin hook under 2Q as the specification words it, on the two queues as lists:
  "1. If f is currently in the main queue, move it to the tail of the main queue. 2. Else
  if f is in the A1 queue, remove from A1 and append to the tail of main. 3. Else append
  to the tail of A1." The result is the main queue and A1 afterwards.
\<close>

definition spec_unpinned_2q :: "nat \<Rightarrow> nat list \<Rightarrow> nat list \<Rightarrow> nat list \<times> nat list" where
  "spec_unpinned_2q f ms as =
    (if f \<in> set ms then (remove1 f ms @ [f], as)
     else if f \<in> set as then (ms @ [f], remove1 f as)
     else (ms, as @ [f]))"

text \<open>
  The two victim queues are well-formed lists that share no frame; and what every run
  keeps: that under 2Q, and an empty A1 under the other policies.
\<close>

definition two_queues :: "world \<Rightarrow> bool" where
  "two_queues w \<longleftrightarrow> (\<exists>ms as. main_queue w ms \<and> a1_queue w as \<and> set ms \<inter> set as = {})"

definition queues_kept :: "world \<Rightarrow> bool" where
  "queues_kept w \<longleftrightarrow>
     (if BufferReplacementPolicy w = POLICY_2Q then two_queues w
      else a1Head (StrategyControl w) = None)"

text \<open>The unlinking and the appending the queue code performs, on the store alone.\<close>

definition splice_out :: "(nat \<Rightarrow> BufferDesc) \<Rightarrow> nat \<Rightarrow> nat \<Rightarrow> BufferDesc" where
  "splice_out B v =
    (let B1 = (case previous (B v) of
                 None \<Rightarrow> B
               | Some p \<Rightarrow> B(p := (B p)\<lparr>next_ptr := next_ptr (B v)\<rparr>))
     in case next_ptr (B v) of
          None \<Rightarrow> B1
        | Some n \<Rightarrow> B1(n := (B1 n)\<lparr>previous := previous (B v)\<rparr>))"

definition attach :: "(nat \<Rightarrow> BufferDesc) \<Rightarrow> nat option \<Rightarrow> nat \<Rightarrow> nat \<Rightarrow> BufferDesc" where
  "attach B t v =
    (let B1 = (case t of None \<Rightarrow> B | Some l \<Rightarrow> B(l := (B l)\<lparr>next_ptr := Some v\<rparr>))
     in B1(v := (B1 v)\<lparr>previous := t, next_ptr := None\<rparr>))"

text \<open>
  The drained pool of eight frames under CLOCK once every pin was dropped: each frame has
  \<open>refcount = 0\<close> and \<open>usage_count = 1\<close>, and the hand is at \<open>0\<close>.
\<close>

definition clock_scenario :: world where
  "clock_scenario =
    (drained_pool 8 POLICY_CLOCK)\<lparr>BufferDescriptors :=
       (\<lambda>i. (BufferDescriptors (drained_pool 8 POLICY_CLOCK) i)\<lparr>refcount := 0\<rparr>)\<rparr>"

text \<open>
  A bulk-read ring of four slots, the size \<^verbatim>\<open>GetAccessStrategy\<close> gives a ring in a pool of
  32 frames, all filled (slot \<open>i\<close> holds the buffer number of frame \<open>i\<close>), whose last victim
  came from slot \<open>0\<close>.
\<close>

definition bulkread_ring :: BufferAccessStrategyData where
  "bulkread_ring = \<lparr>btype = BAS_BULKREAD, ring_size = 4, current = 0, current_was_in_ring = True,
     buffers = (\<lambda>i. if 0 \<le> i \<and> i < 4 then i + 1 else InvalidBuffer)\<rparr>"

section \<open>Properties\<close>

lemmas prim_defs = upd_ctl_def upd_buf_def set_next_def set_previous_def LockBufHdr_def
  UnlockBufHdr_def LWLockAcquire_def LWLockRelease_def SetLatch_def valid_index_def

lemmas eval_defs = StrategyGetBuffer_def get_buffer_global_def select_victim_def
  lock_and_count_def advance_hand_def
  drained_pool_def InitBufferPool_def StrategyInitialize_def StrategyFreeBuffer_def prim_defs Let_def
  freelist_loop.simps lru_scan.simps mru_scan.simps clock_sweep.simps a1_size.simps scan_a1.simps
  scan_am.simps queue_walk.simps FREENEXT_END_OF_LIST_def FREENEXT_NOT_IN_LIST_def
  BufferUnpinned_def append_to_a1_def append_new_def promote_from_a1_def move_to_tail_def
  unlink_a1_def unlink_am_def return_result_def unpin_def returned_frame_def main_view_def

subsection \<open>Releasing a frame twice\<close>

text \<open>
  C8. \<^verbatim>\<open>StrategyFreeBuffer\<close> is idempotent: releasing a frame a second time leaves the
  freelist (indeed the whole shared state) as the first release left it. The head of the
  freelist is a frame index or the end-of-list sentinel, never the not-in-list mark.
\<close>

theorem FreeBuffer_idempotent:
  assumes "firstFreeBuffer (StrategyControl w) \<noteq> FREENEXT_NOT_IN_LIST"
  shows "StrategyFreeBuffer f (StrategyFreeBuffer f w) = StrategyFreeBuffer f w"
  using assms by (simp add: StrategyFreeBuffer_def prim_defs Let_def)

theorem FreeBuffer_idempotent_witness:
  "firstFreeBuffer (StrategyControl (drained_pool 8 POLICY_2Q)) \<noteq> FREENEXT_NOT_IN_LIST \<and>
   firstFreeBuffer (StrategyControl (StrategyFreeBuffer 3 (drained_pool 8 POLICY_2Q))) = 3 \<and>
   StrategyFreeBuffer 3 (StrategyFreeBuffer 3 (drained_pool 8 POLICY_2Q)) =
     StrategyFreeBuffer 3 (drained_pool 8 POLICY_2Q)"
proof -
  have h: "firstFreeBuffer (StrategyControl (drained_pool 8 POLICY_2Q)) \<noteq> FREENEXT_NOT_IN_LIST"
    by (simp add: eval_defs)
  have "firstFreeBuffer (StrategyControl (StrategyFreeBuffer 3 (drained_pool 8 POLICY_2Q))) = 3"
    by (simp add: eval_defs)
  with h FreeBuffer_idempotent [OF h, of 3] show ?thesis by simp
qed

subsection \<open>Rejecting a ring buffer\<close>

lemma ring_invalid_slot:
  "buffers t (next_slot t) = InvalidBuffer \<Longrightarrow> fst (GetBufferFromRing t w) = Inr None"
  by (cases "current t + 1 \<ge> ring_size t")
    (simp_all add: GetBufferFromRing_def next_slot_def Let_def)

text \<open>
  C9. \<^verbatim>\<open>StrategyRejectBuffer\<close> answers true exactly for a bulk-read ring whose current slot
  still holds the buffer number of the frame and whose last victim came from the ring.
  It then writes \<^verbatim>\<open>InvalidBuffer\<close> into that slot, and any later \<^verbatim>\<open>GetBufferFromRing\<close> that
  advances to the slot and finds it as the rejection left it returns no frame. When the
  answer is false the ring is untouched.
\<close>

theorem RejectBuffer_blanks_slot:
  "(fst (StrategyRejectBuffer s f) \<longleftrightarrow>
      btype s = BAS_BULKREAD \<and> buffers s (current s) = BufferDescriptorGetBuffer f \<and>
      current_was_in_ring s) \<and>
   (\<not> fst (StrategyRejectBuffer s f) \<longrightarrow> snd (StrategyRejectBuffer s f) = s) \<and>
   (fst (StrategyRejectBuffer s f) \<longrightarrow>
      buffers (snd (StrategyRejectBuffer s f)) (current s) = InvalidBuffer \<and>
      (\<forall>t w. next_slot t = current s \<and>
             buffers t (current s) = buffers (snd (StrategyRejectBuffer s f)) (current s) \<longrightarrow>
             fst (GetBufferFromRing t w) = Inr None))"
proof (intro conjI impI allI)
  show "fst (StrategyRejectBuffer s f) \<longleftrightarrow>
      btype s = BAS_BULKREAD \<and> buffers s (current s) = BufferDescriptorGetBuffer f \<and>
      current_was_in_ring s"
    by (auto simp: StrategyRejectBuffer_def)
next
  assume "\<not> fst (StrategyRejectBuffer s f)"
  then show "snd (StrategyRejectBuffer s f) = s"
    by (auto simp: StrategyRejectBuffer_def split: if_splits)
next
  assume r: "fst (StrategyRejectBuffer s f)"
  then show blank: "buffers (snd (StrategyRejectBuffer s f)) (current s) = InvalidBuffer"
    by (auto simp: StrategyRejectBuffer_def split: if_splits)
  fix t w
  assume "next_slot t = current s \<and>
          buffers t (current s) = buffers (snd (StrategyRejectBuffer s f)) (current s)"
  with blank have "buffers t (next_slot t) = InvalidBuffer" by simp
  then show "fst (GetBufferFromRing t w) = Inr None" by (rule ring_invalid_slot)
qed

theorem RejectBuffer_blanks_slot_witness:
  "fst (StrategyRejectBuffer bulkread_ring (BufferDescriptors (drained_pool 32 POLICY_2Q) 0)) \<and>
   buffers (snd (StrategyRejectBuffer bulkread_ring
                  (BufferDescriptors (drained_pool 32 POLICY_2Q) 0))) 0 = InvalidBuffer \<and>
   fst (GetBufferFromRing
         ((snd (StrategyRejectBuffer bulkread_ring
                  (BufferDescriptors (drained_pool 32 POLICY_2Q) 0)))\<lparr>current := 3\<rparr>)
         (drained_pool 32 POLICY_2Q)) = Inr None"
proof -
  let ?f = "BufferDescriptors (drained_pool 32 POLICY_2Q) 0"
  let ?t = "(snd (StrategyRejectBuffer bulkread_ring ?f))\<lparr>current := 3\<rparr>"
  have r: "fst (StrategyRejectBuffer bulkread_ring ?f)"
    by (simp add: StrategyRejectBuffer_def bulkread_ring_def BufferDescriptorGetBuffer_def
        eval_defs)
  have c: "current bulkread_ring = 0" by (simp add: bulkread_ring_def)
  have t: "next_slot ?t = current bulkread_ring \<and>
           buffers ?t (current bulkread_ring) =
             buffers (snd (StrategyRejectBuffer bulkread_ring ?f)) (current bulkread_ring)"
    by (simp add: next_slot_def StrategyRejectBuffer_def bulkread_ring_def)
  from RejectBuffer_blanks_slot [of bulkread_ring ?f] r t c show ?thesis by auto
qed

subsection \<open>Where the code departs from its contract\<close>

text \<open>
  C1. The 2Q branch hands back a frame whose header spinlock it never took. Eight frames,
  all pinned, the freelist empty; frame \<open>0\<close> is unpinned and lands in A1; the next
  \<^verbatim>\<open>StrategyGetBuffer\<close> returns frame \<open>0\<close> with \<open>refcount = 0\<close> and the header lock not held.
\<close>

theorem two_q_returns_unlocked:
  "map_option returned_frame
     (case run (unpin 0) (drained_pool 8 POLICY_2Q) of
        None \<Rightarrow> None | Some w \<Rightarrow> StrategyGetBuffer None w) = Some (Inr (0, 0, False))"
  by (simp add: eval_defs)

text \<open>
  C2. With the freelist empty and every frame pinned, the walks of LRU and MRU reach
  \<^verbatim>\<open>NULL\<close> and the code then unlocks the header of that \<^verbatim>\<open>NULL\<close> descriptor before it gets
  to report that no unpinned buffer is available.
\<close>

theorem lru_mru_null_dereference:
  "map_option fst (StrategyGetBuffer None (drained_pool 8 POLICY_LRU)) =
     Some (Inl NullPointerDereference) \<and>
   map_option fst (StrategyGetBuffer None (drained_pool 8 POLICY_MRU)) =
     Some (Inl NullPointerDereference)"
  by (simp add: eval_defs)

text \<open>
  C5. Under LRU, frame \<open>3\<close> is unpinned and becomes the only element of the main queue,
  with both links nil. When it is unpinned again, the code takes it for a frame that is
  in no queue and appends it behind itself: head and tail still point to frame \<open>3\<close>, and
  so do both of its links.
\<close>

theorem unpin_sole_element_self_loop:
  "map_option (main_view 3) (run (unpin 3) (drained_pool 8 POLICY_LRU)) =
     Some (Some 3, Some 3, None, None) \<and>
   map_option (main_view 3) (run (unpin 3 @ unpin 3) (drained_pool 8 POLICY_LRU)) =
     Some (Some 3, Some 3, Some 3, Some 3)"
  by (simp add: eval_defs)

subsection \<open>The clock sweep\<close>

lemma lock_and_count_frame:
  "BufferDescriptors (lock_and_count w) = BufferDescriptors w"
  "NBuffers (lock_and_count w) = NBuffers w"
  "BufferReplacementPolicy (lock_and_count w) = BufferReplacementPolicy w"
  "nextVictimBuffer (StrategyControl (lock_and_count w)) = nextVictimBuffer (StrategyControl w)"
  "firstFreeBuffer (StrategyControl (lock_and_count w)) = firstFreeBuffer (StrategyControl w)"
  "completePasses (StrategyControl (lock_and_count w)) = completePasses (StrategyControl w)"
  "firstUnpinned (StrategyControl (lock_and_count w)) = firstUnpinned (StrategyControl w)"
  "lastUnpinned (StrategyControl (lock_and_count w)) = lastUnpinned (StrategyControl w)"
  "a1Head (StrategyControl (lock_and_count w)) = a1Head (StrategyControl w)"
  "a1Tail (StrategyControl (lock_and_count w)) = a1Tail (StrategyControl w)"
  by (simp_all add: lock_and_count_def prim_defs Let_def split: option.split)

text \<open>The sweep from hand \<open>n - k\<close> on, when the frames behind the hand are already at zero.\<close>

lemma clock_second_pass:
  assumes "NBuffers w = int n" and "2 \<le> n"
    and "nextVictimBuffer (StrategyControl w) = 0"
    and "\<forall>i<n. refcount (BufferDescriptors w i) = 0 \<and> usage_count (BufferDescriptors w i) = 0"
  shows "\<exists>w'. clock_sweep None tc w = Some (Inr 0, None, w') \<and>
           (\<forall>i<n. usage_count (BufferDescriptors w' i) = 0 \<and> refcount (BufferDescriptors w' i) = 0) \<and>
           nextVictimBuffer (StrategyControl w') = 1 \<and>
           completePasses (StrategyControl w') = completePasses (StrategyControl w) \<and>
           buf_hdr_lock (BufferDescriptors w' 0)"
  using assms
  by (subst clock_sweep.simps) (simp add: prim_defs advance_hand_def Let_def)

lemma clock_first_pass:
  assumes "NBuffers w = int n" and "2 \<le> n" and "k < n"
    and "nextVictimBuffer (StrategyControl w) = int k"
    and "\<forall>i<n. refcount (BufferDescriptors w i) = 0"
    and "\<forall>i<n. usage_count (BufferDescriptors w i) = (if i < k then 0 else 1)"
  shows "\<exists>w'. clock_sweep None tc w = Some (Inr 0, None, w') \<and>
           (\<forall>i<n. usage_count (BufferDescriptors w' i) = 0 \<and> refcount (BufferDescriptors w' i) = 0) \<and>
           nextVictimBuffer (StrategyControl w') = 1 \<and>
           completePasses (StrategyControl w') = completePasses (StrategyControl w) + 1 \<and>
           buf_hdr_lock (BufferDescriptors w' 0)"
  using assms
proof (induction "n - k" arbitrary: k w tc)
  case 0
  then show ?case by simp
next
  case (Suc j)
  let ?w1 = "UnlockBufHdr k (upd_buf k (\<lambda>d. d\<lparr>usage_count := usage_count d - 1\<rparr>)
               (LockBufHdr k (advance_hand w)))"
  have step: "clock_sweep None tc w = clock_sweep None (NBuffers w) ?w1"
    using Suc.prems
    by (subst clock_sweep.simps) (simp add: prim_defs advance_hand_def Let_def)
  have N1: "NBuffers ?w1 = int n"
    using Suc.prems by (simp add: prim_defs advance_hand_def Let_def)
  have rc1: "\<forall>i<n. refcount (BufferDescriptors ?w1 i) = 0"
    using Suc.prems by (simp add: prim_defs advance_hand_def Let_def)
  show ?case
  proof (cases "Suc k = n")
    case True
    have h1: "nextVictimBuffer (StrategyControl ?w1) = 0"
      using Suc.prems True by (auto simp: prim_defs advance_hand_def Let_def)
    have p1: "completePasses (StrategyControl ?w1) = completePasses (StrategyControl w) + 1"
      using Suc.prems True by (auto simp: prim_defs advance_hand_def Let_def)
    have u1: "\<forall>i<n. refcount (BufferDescriptors ?w1 i) = 0 \<and> usage_count (BufferDescriptors ?w1 i) = 0"
      using Suc.prems True by (auto simp: prim_defs advance_hand_def Let_def)
    from clock_second_pass [OF N1 \<open>2 \<le> n\<close> h1 u1, of "NBuffers w"] step p1
    show ?thesis by auto
  next
    case False
    with Suc.prems have lt: "Suc k < n" by simp
    have h1: "nextVictimBuffer (StrategyControl ?w1) = int (Suc k)"
      using Suc.prems lt by (auto simp: prim_defs advance_hand_def Let_def)
    have p1: "completePasses (StrategyControl ?w1) = completePasses (StrategyControl w)"
      using Suc.prems lt by (auto simp: prim_defs advance_hand_def Let_def)
    have u1: "\<forall>i<n. usage_count (BufferDescriptors ?w1 i) = (if i < Suc k then 0 else 1)"
      using Suc.prems lt by (auto simp: prim_defs advance_hand_def Let_def)
    have "j = n - Suc k" using Suc.hyps(2) by simp
    from Suc.hyps(1) [OF this N1 \<open>2 \<le> n\<close> lt h1 rc1 u1, of "NBuffers w"] step p1
    show ?thesis by auto
  qed
qed

text \<open>
  C3. CLOCK with eight frames, the freelist empty, the hand at \<open>0\<close>, every frame unpinned
  with \<open>usage_count = 1\<close>: one call of \<^verbatim>\<open>StrategyGetBuffer\<close> brings the usage count of all
  eight frames to \<open>0\<close>, counts one complete pass, returns frame \<open>0\<close> with its header locked
  and leaves the hand at \<open>1\<close>.
\<close>

theorem clock_decrement_then_evict:
  assumes "BufferReplacementPolicy w = POLICY_CLOCK" and "NBuffers w = 8"
    and "firstFreeBuffer (StrategyControl w) < 0"
    and "nextVictimBuffer (StrategyControl w) = 0"
    and "\<forall>i<8. refcount (BufferDescriptors w i) = 0 \<and> usage_count (BufferDescriptors w i) = 1"
  shows "\<exists>w'. StrategyGetBuffer None w = Some (Inr (0, True), None, w') \<and>
           (\<forall>i<8. usage_count (BufferDescriptors w' i) = 0 \<and> refcount (BufferDescriptors w' i) = 0) \<and>
           nextVictimBuffer (StrategyControl w') = 1 \<and>
           completePasses (StrategyControl w') = completePasses (StrategyControl w) + 1 \<and>
           buf_hdr_lock (BufferDescriptors w' 0)"
proof -
  let ?w = "lock_and_count w"
  have fl: "freelist_loop None ?w = Some (Inr None, None, ?w)"
    using assms(3) by (subst freelist_loop.simps) (simp add: lock_and_count_frame)
  have "\<exists>w'. clock_sweep None (NBuffers ?w) ?w = Some (Inr 0, None, w') \<and>
           (\<forall>i<8. usage_count (BufferDescriptors w' i) = 0 \<and> refcount (BufferDescriptors w' i) = 0) \<and>
           nextVictimBuffer (StrategyControl w') = 1 \<and>
           completePasses (StrategyControl w') = completePasses (StrategyControl ?w) + 1 \<and>
           buf_hdr_lock (BufferDescriptors w' 0)"
    by (rule clock_first_pass [where n = 8 and k = 0]) (use assms in \<open>simp_all add: lock_and_count_frame\<close>)
  then obtain w' where w': "clock_sweep None (NBuffers ?w) ?w = Some (Inr 0, None, w')"
    "\<forall>i<8. usage_count (BufferDescriptors w' i) = 0 \<and> refcount (BufferDescriptors w' i) = 0"
    "nextVictimBuffer (StrategyControl w') = 1"
    "completePasses (StrategyControl w') = completePasses (StrategyControl ?w) + 1"
    "buf_hdr_lock (BufferDescriptors w' 0)" by blast
  have "StrategyGetBuffer None w = Some (Inr (0, True), None, w')"
    using assms(1) fl w'(1)
    by (simp add: StrategyGetBuffer_def get_buffer_global_def select_victim_def lock_and_count_frame)
  with w' show ?thesis by (auto simp: lock_and_count_frame)
qed

theorem clock_decrement_then_evict_witness:
  "BufferReplacementPolicy clock_scenario = POLICY_CLOCK \<and> NBuffers clock_scenario = 8 \<and>
   firstFreeBuffer (StrategyControl clock_scenario) < 0 \<and>
   nextVictimBuffer (StrategyControl clock_scenario) = 0 \<and>
   completePasses (StrategyControl clock_scenario) = 0 \<and>
   counts clock_scenario [0, 1, 2, 3, 4, 5, 6, 7] =
     [(0, 1), (0, 1), (0, 1), (0, 1), (0, 1), (0, 1), (0, 1), (0, 1)] \<and>
   (\<exists>w'. StrategyGetBuffer None clock_scenario = Some (Inr (0, True), None, w') \<and>
         counts w' [0, 1, 2, 3, 4, 5, 6, 7] =
           [(0, 0), (0, 0), (0, 0), (0, 0), (0, 0), (0, 0), (0, 0), (0, 0)] \<and>
         nextVictimBuffer (StrategyControl w') = 1 \<and>
         completePasses (StrategyControl w') = 1 \<and>
         buf_hdr_lock (BufferDescriptors w' 0))"
proof -
  have h: "BufferReplacementPolicy clock_scenario = POLICY_CLOCK" "NBuffers clock_scenario = 8"
    "firstFreeBuffer (StrategyControl clock_scenario) < 0"
    "nextVictimBuffer (StrategyControl clock_scenario) = 0"
    "\<forall>i<8. refcount (BufferDescriptors clock_scenario i) = 0 \<and>
           usage_count (BufferDescriptors clock_scenario i) = 1"
    by (simp_all add: clock_scenario_def eval_defs)
  have p: "completePasses (StrategyControl clock_scenario) = 0"
    by (simp add: clock_scenario_def eval_defs)
  have c: "counts clock_scenario [0, 1, 2, 3, 4, 5, 6, 7] =
     [(0, 1), (0, 1), (0, 1), (0, 1), (0, 1), (0, 1), (0, 1), (0, 1)]"
    by (simp add: counts_def clock_scenario_def eval_defs)
  from clock_decrement_then_evict [OF h] p
  obtain w' where w': "StrategyGetBuffer None clock_scenario = Some (Inr (0, True), None, w')"
    "\<forall>i<8. usage_count (BufferDescriptors w' i) = 0 \<and> refcount (BufferDescriptors w' i) = 0"
    "nextVictimBuffer (StrategyControl w') = 1" "completePasses (StrategyControl w') = 1"
    "buf_hdr_lock (BufferDescriptors w' 0)" by auto
  from w'(2) have "counts w' [0, 1, 2, 3, 4, 5, 6, 7] =
      [(0, 0), (0, 0), (0, 0), (0, 0), (0, 0), (0, 0), (0, 0), (0, 0)]"
    by (simp add: counts_def)
  with w' h(1-4) p c show ?thesis by blast
qed

subsection \<open>Calls that leave the queues alone\<close>

lemma same_setup_refl: "same_setup w w"
  by (simp add: same_setup_def same_queues_def)

lemma same_setup_trans: "same_setup w1 w2 \<Longrightarrow> same_setup w2 w3 \<Longrightarrow> same_setup w1 w3"
  by (simp add: same_setup_def same_queues_def)

lemma same_setup_steps:
  "same_setup w (LockBufHdr b w)" "same_setup w (UnlockBufHdr b w)"
  "same_setup w (lock_and_count w)" "same_setup w (advance_hand w)"
  "same_setup w (upd_buf b (\<lambda>d. d\<lparr>usage_count := u d\<rparr>) w)"
  "same_setup w (upd_buf b (\<lambda>d. d\<lparr>freeNext := x\<rparr>) w)"
  "same_setup w (upd_ctl (\<lambda>c. c\<lparr>firstFreeBuffer := y\<rparr>) w)"
  by (simp_all add: same_setup_def same_queues_def lock_and_count_frame prim_defs advance_hand_def Let_def)

lemma ring_same_setup:
  "GetBufferFromRing s w = (r, s', w') \<Longrightarrow> same_setup w w'"
  by (auto simp: GetBufferFromRing_def Let_def same_setup_def same_queues_def prim_defs split: if_splits)

lemma freelist_loop_same_setup:
  "freelist_loop st w = Some y \<Longrightarrow> same_setup w (snd (snd y))"
proof (induct st w y rule: freelist_loop.raw_induct [rotated -1, consumes 1, case_names step])
  case (step loop st w y)
  show ?case
  proof (cases "0 \<le> firstFreeBuffer (StrategyControl w) \<and> valid_index w (firstFreeBuffer (StrategyControl w))")
    case False
    with step(2) show ?thesis by (auto simp: same_setup_refl split: if_splits)
  next
    case True
    let ?b = "nat (firstFreeBuffer (StrategyControl w))"
    let ?w3 = "LockBufHdr ?b (upd_buf ?b (\<lambda>d. d\<lparr>freeNext := FREENEXT_NOT_IN_LIST\<rparr>)
       (upd_ctl (\<lambda>c. c\<lparr>firstFreeBuffer := freeNext (BufferDescriptors w ?b)\<rparr>) w))"
    have s3: "same_setup w ?w3" "same_setup w (UnlockBufHdr ?b ?w3)"
      by (simp_all add: same_setup_def same_queues_def prim_defs)
    show ?thesis
    proof (cases "refcount (BufferDescriptors ?w3 ?b) = 0 \<and> usage_count (BufferDescriptors ?w3 ?b) = 0")
      case True
      with step(2) \<open>0 \<le> _ \<and> _\<close> have "snd (snd y) = ?w3" by (auto simp: Let_def)
      with s3(1) show ?thesis by simp
    next
      case False
      with step(2) \<open>0 \<le> _ \<and> _\<close> have "loop st (UnlockBufHdr ?b ?w3) = Some y"
        by (auto simp: Let_def)
      from step(1) [OF this] s3(2) show ?thesis by (rule same_setup_trans [rotated])
    qed
  qed
qed

lemma clock_sweep_same_setup:
  "clock_sweep st tc w = Some y \<Longrightarrow> same_setup w (snd (snd y))"
proof (induct st tc w y rule: clock_sweep.raw_induct [rotated -1, consumes 1, case_names step])
  case (step loop st tc w y)
  show ?case
  proof (cases "valid_index w (nextVictimBuffer (StrategyControl w))")
    case False
    with step(2) show ?thesis by (auto simp: same_setup_refl)
  next
    case True
    let ?b = "nat (nextVictimBuffer (StrategyControl w))"
    let ?w2 = "LockBufHdr ?b (advance_hand w)"
    let ?w3 = "UnlockBufHdr ?b (upd_buf ?b (\<lambda>d. d\<lparr>usage_count := usage_count d - 1\<rparr>) ?w2)"
    have s2: "same_setup w ?w2"
      by (simp add: same_setup_def same_queues_def prim_defs advance_hand_def Let_def)
    have s3: "same_setup w ?w3"
      by (simp add: same_setup_def same_queues_def prim_defs advance_hand_def Let_def)
    have s4: "same_setup w (UnlockBufHdr ?b ?w2)"
      by (simp add: same_setup_def same_queues_def prim_defs advance_hand_def Let_def)
    show ?thesis
    proof (cases "refcount (BufferDescriptors ?w2 ?b) = 0")
      case rc: True
      show ?thesis
      proof (cases "0 < usage_count (BufferDescriptors ?w2 ?b)")
        case True
        with step(2) \<open>valid_index w _\<close> rc have "loop st (NBuffers ?w2) ?w3 = Some y"
          by (simp add: Let_def)
        from step(1) [OF this] s3 show ?thesis by (rule same_setup_trans [rotated])
      next
        case False
        with step(2) \<open>valid_index w _\<close> rc have "snd (snd y) = ?w2"
          by (auto simp add: Let_def)
        with s2 show ?thesis by simp
      qed
    next
      case rc: False
      show ?thesis
      proof (cases "tc - 1 = 0")
        case True
        with step(2) \<open>valid_index w _\<close> rc have "snd (snd y) = UnlockBufHdr ?b ?w2"
          by (auto simp add: Let_def)
        with s4 show ?thesis by simp
      next
        case False
        with step(2) \<open>valid_index w _\<close> rc have "loop st (tc - 1) (UnlockBufHdr ?b ?w2) = Some y"
          by (simp add: Let_def)
        from step(1) [OF this] s4 show ?thesis by (rule same_setup_trans [rotated])
      qed
    qed
  qed
qed

lemma lru_scan_same_setup:
  "lru_scan w buf = Some y \<Longrightarrow> same_setup w (snd y)"
proof (induct w buf y rule: lru_scan.raw_induct [rotated -1, consumes 1, case_names step])
  case (step loop w buf y)
  show ?case
  proof (cases buf)
    case None
    with step(2) show ?thesis by (auto simp: same_setup_refl)
  next
    case (Some b)
    have s1: "same_setup w (LockBufHdr b w)" "same_setup w (UnlockBufHdr b (LockBufHdr b w))"
      by (simp_all add: same_setup_def same_queues_def prim_defs)
    consider (hit) "snd y = LockBufHdr b w"
      | (further) nb where "loop (UnlockBufHdr b (LockBufHdr b w)) nb = Some y"
      using step(2) Some by (auto simp: Let_def split: if_splits)
    then show ?thesis
    proof cases
      case hit
      with s1 show ?thesis by simp
    next
      case further
      from step(1) [OF this] s1(2) show ?thesis by (rule same_setup_trans [rotated])
    qed
  qed
qed

lemma mru_scan_same_setup:
  "mru_scan w buf = Some y \<Longrightarrow> same_setup w (snd y)"
proof (induct w buf y rule: mru_scan.raw_induct [rotated -1, consumes 1, case_names step])
  case (step loop w buf y)
  show ?case
  proof (cases buf)
    case None
    with step(2) show ?thesis by (auto simp: same_setup_refl)
  next
    case (Some b)
    have s1: "same_setup w (LockBufHdr b w)" "same_setup w (UnlockBufHdr b (LockBufHdr b w))"
      by (simp_all add: same_setup_def same_queues_def prim_defs)
    consider (hit) "snd y = LockBufHdr b w"
      | (further) nb where "loop (UnlockBufHdr b (LockBufHdr b w)) nb = Some y"
      using step(2) Some by (auto simp: Let_def split: if_splits)
    then show ?thesis
    proof cases
      case hit
      with s1 show ?thesis by simp
    next
      case further
      from step(1) [OF this] s1(2) show ?thesis by (rule same_setup_trans [rotated])
    qed
  qed
qed

lemma return_result_world: "snd (snd (return_result i st w)) = w"
  by (simp add: return_result_def)

lemma select_victim_same_setup:
  assumes "BufferReplacementPolicy w \<noteq> POLICY_2Q" and "select_victim st w = Some y"
  shows "same_setup w (snd (snd y))"
proof (cases "BufferReplacementPolicy w")
  case POLICY_CLOCK
  with assms(2) obtain y' where "clock_sweep st (NBuffers w) w = Some y'" "snd (snd y') = snd (snd y)"
    by (auto simp: select_victim_def split: option.splits sum.splits prod.splits)
  with clock_sweep_same_setup [of st "NBuffers w" w y'] show ?thesis by simp
next
  case POLICY_LRU
  with assms(2) obtain y' where "lru_scan w (firstUnpinned (StrategyControl w)) = Some y'" "snd y' = snd (snd y)"
    by (auto simp: select_victim_def return_result_world split: option.splits sum.splits prod.splits)
  with lru_scan_same_setup [of w _ y'] show ?thesis by simp
next
  case POLICY_MRU
  with assms(2) obtain y' where "mru_scan w (lastUnpinned (StrategyControl w)) = Some y'" "snd y' = snd (snd y)"
    by (auto simp: select_victim_def return_result_world split: option.splits sum.splits prod.splits)
  with mru_scan_same_setup [of w _ y'] show ?thesis by simp
next
  case POLICY_2Q
  with assms(1) show ?thesis by simp
next
  case (POLICY_OTHER n)
  with assms(2) show ?thesis by (auto simp: select_victim_def same_setup_refl)
qed

lemma get_buffer_global_same_setup:
  assumes "BufferReplacementPolicy w \<noteq> POLICY_2Q" and "get_buffer_global st w = Some y"
  shows "same_setup w (snd (snd y))"
proof -
  from assms(2) obtain y1 where y1: "freelist_loop st (lock_and_count w) = Some y1"
    by (auto simp: get_buffer_global_def split: option.splits)
  from freelist_loop_same_setup [OF y1] have s1: "same_setup w (snd (snd y1))"
    by (rule same_setup_trans [OF same_setup_steps(3)])
  show ?thesis
  proof (cases "fst y1 = Inr None")
    case False
    with assms(2) y1 have "snd (snd y) = snd (snd y1)"
      by (cases y1) (auto simp: get_buffer_global_def split: sum.splits option.splits)
    with s1 show ?thesis by simp
  next
    case True
    with assms(2) y1 have sv: "select_victim (fst (snd y1)) (snd (snd y1)) = Some y"
      by (cases y1) (auto simp: get_buffer_global_def)
    from s1 assms(1) have "BufferReplacementPolicy (snd (snd y1)) \<noteq> POLICY_2Q"
      by (simp add: same_setup_def)
    from select_victim_same_setup [OF this sv] s1 show ?thesis
      by (rule same_setup_trans [rotated])
  qed
qed

lemma StrategyGetBuffer_same_setup:
  assumes "BufferReplacementPolicy w \<noteq> POLICY_2Q" and "StrategyGetBuffer st w = Some y"
  shows "same_setup w (snd (snd y))"
proof (cases st)
  case None
  with assms get_buffer_global_same_setup show ?thesis by (simp add: StrategyGetBuffer_def)
next
  case (Some s)
  obtain r s' w' where g: "GetBufferFromRing s w = (r, s', w')" by (cases "GetBufferFromRing s w") auto
  from ring_same_setup [OF g] have s1: "same_setup w w'" .
  show ?thesis
  proof (cases "r = Inr None")
    case False
    with assms(2) Some g have "snd (snd y) = w'"
      by (auto simp: StrategyGetBuffer_def split: sum.splits option.splits)
    with s1 show ?thesis by simp
  next
    case True
    with assms(2) Some g have gg: "get_buffer_global (Some s') w' = Some y"
      by (auto simp: StrategyGetBuffer_def)
    from s1 assms(1) have "BufferReplacementPolicy w' \<noteq> POLICY_2Q" by (simp add: same_setup_def)
    from get_buffer_global_same_setup [OF this gg] s1 show ?thesis
      by (rule same_setup_trans [rotated])
  qed
qed

text \<open>
  C10. Under every policy but 2Q, and so under LRU and MRU, a call of \<^verbatim>\<open>StrategyGetBuffer\<close>
  that returns leaves the victim queues as they were: the heads and tails in the control
  block and both links of every frame, the returned one included. Under 2Q the victim is
  unlinked: with frame \<open>0\<close> alone in A1, the call that returns it changes the queues.
\<close>

theorem selection_keeps_queues:
  "(\<forall>strategy w y.
      BufferReplacementPolicy w \<noteq> POLICY_2Q \<and> StrategyGetBuffer strategy w = Some y \<longrightarrow>
      same_queues w (snd (snd y))) \<and>
   (\<exists>w y. run (unpin 0) (drained_pool 8 POLICY_2Q) = Some w \<and>
          StrategyGetBuffer None w = Some y \<and> fst y = Inr (0, True) \<and>
          \<not> same_queues w (snd (snd y)))"
proof (intro conjI allI impI)
  fix strategy w y
  assume "BufferReplacementPolicy w \<noteq> POLICY_2Q \<and> StrategyGetBuffer strategy w = Some y"
  then have "same_setup w (snd (snd y))" by (blast intro: StrategyGetBuffer_same_setup)
  then show "same_queues w (snd (snd y))" by (simp add: same_setup_def)
next
  show "\<exists>w y. run (unpin 0) (drained_pool 8 POLICY_2Q) = Some w \<and>
          StrategyGetBuffer None w = Some y \<and> fst y = Inr (0, True) \<and>
          \<not> same_queues w (snd (snd y))"
    by (simp add: eval_defs same_queues_def)
qed

theorem selection_keeps_queues_witness:
  "\<exists>w y. run (unpin 3) (drained_pool 8 POLICY_LRU) = Some w \<and>
         BufferReplacementPolicy w \<noteq> POLICY_2Q \<and>
         StrategyGetBuffer None w = Some y \<and> fst y = Inr (3, True) \<and>
         same_queues w (snd (snd y))"
proof -
  have "\<exists>w y. run (unpin 3) (drained_pool 8 POLICY_LRU) = Some w \<and>
         BufferReplacementPolicy w \<noteq> POLICY_2Q \<and>
         StrategyGetBuffer None w = Some y \<and> fst y = Inr (3, True)"
    by (simp add: eval_defs)
  then obtain w y where wy: "run (unpin 3) (drained_pool 8 POLICY_LRU) = Some w"
    "BufferReplacementPolicy w \<noteq> POLICY_2Q" "StrategyGetBuffer None w = Some y"
    "fst y = Inr (3, True)" by blast
  with selection_keeps_queues have "same_queues w (snd (snd y))" by blast
  with wy show ?thesis by blast
qed

subsection \<open>Doubly-linked segments\<close>

lemma seg_append:
  "seg B p (xs @ ys) h t q \<longleftrightarrow> (\<exists>m n. seg B p xs h m n \<and> seg B m ys n t q)"
  by (induction xs arbitrary: p h) auto

lemma seg_cong:
  "(\<And>x. x \<in> set xs \<Longrightarrow> previous (B' x) = previous (B x) \<and> next_ptr (B' x) = next_ptr (B x))
    \<Longrightarrow> seg B' p xs h t q = seg B p xs h t q"
  by (induction xs arbitrary: p h) auto

lemma seg_upd_outside [simp]:
  "x \<notin> set xs \<Longrightarrow> seg (B(x := d)) p xs h t q = seg B p xs h t q"
  by (rule seg_cong) auto

lemma seg_tail: "seg B p xs h t q \<Longrightarrow> t = (if xs = [] then p else Some (last xs))"
  by (induction xs arbitrary: p h) auto

lemma seg_head: "seg B p xs h t q \<Longrightarrow> h = (if xs = [] then q else Some (hd xs))"
  by (cases xs) auto

lemma seg_snoc:
  "seg B p (xs @ [a]) h t q \<longleftrightarrow>
     (\<exists>m. seg B p xs h m (Some a) \<and> previous (B a) = m \<and> next_ptr (B a) = q \<and> t = Some a)"
  by (auto simp: seg_append)

lemma splice_out_seg:
  assumes "seg B None xs h t None" and "distinct xs" and "v \<in> set xs"
  shows "seg (splice_out B v) None (remove1 v xs)
           (if previous (B v) = None then next_ptr (B v) else h)
           (if next_ptr (B v) = None then previous (B v) else t) None"
proof -
  from assms(3) obtain ys zs where xs: "xs = ys @ v # zs" by (auto simp: in_set_conv_decomp)
  with assms(2) have d: "v \<notin> set ys" "v \<notin> set zs" "distinct ys" "distinct zs" "set ys \<inter> set zs = {}"
    by auto
  from assms(1) xs obtain m where m: "seg B None ys h m (Some v)" "previous (B v) = m"
    "seg B (Some v) zs (next_ptr (B v)) t None"
    by (auto simp: seg_append)
  have rm: "remove1 v xs = ys @ zs" using xs d by (simp add: remove1_append)
  show ?thesis
  proof (cases ys rule: rev_cases)
    case Nil
    with m have pv: "previous (B v) = None" "h = Some v" by auto
    show ?thesis
    proof (cases zs)
      case Nil
      with m pv \<open>ys = []\<close> rm show ?thesis by (simp add: splice_out_def)
    next
      case (Cons c zs')
      with m pv \<open>ys = []\<close> rm d show ?thesis by (auto simp: splice_out_def)
    qed
  next
    case (snoc ys' a)
    with m have pv: "previous (B v) = Some a" and a: "seg B None ys' h (previous (B a)) (Some a)"
      "next_ptr (B a) = Some v"
      by (auto simp: seg_snoc)
    from snoc d have da: "a \<notin> set ys'" "a \<noteq> v" "a \<notin> set zs" by auto
    show ?thesis
    proof (cases zs)
      case Nil
      with m pv a snoc rm da show ?thesis by (auto simp: splice_out_def seg_snoc)
    next
      case (Cons c zs')
      with d snoc have dc: "c \<notin> set ys'" "c \<noteq> a" "c \<noteq> v" "c \<notin> set zs'" by auto
      from Cons m pv a snoc rm da dc show ?thesis
        by (auto simp: splice_out_def seg_append)
    qed
  qed
qed

lemma splice_out_outside:
  assumes "seg B None xs h t None" and "distinct xs" and "v \<in> set xs" and "x \<notin> set xs"
  shows "splice_out B v x = B x"
proof -
  from assms(3) obtain ys zs where xs: "xs = ys @ v # zs" by (auto simp: in_set_conv_decomp)
  from assms(1) xs obtain m where m: "seg B None ys h m (Some v)" "previous (B v) = m"
    "seg B (Some v) zs (next_ptr (B v)) t None"
    by (auto simp: seg_append)
  from seg_tail [OF m(1)] m(2) have "previous (B v) = None \<or> (\<exists>a\<in>set ys. previous (B v) = Some a)"
    by (auto split: if_splits)
  moreover from seg_head [OF m(3)] have "next_ptr (B v) = None \<or> (\<exists>c\<in>set zs. next_ptr (B v) = Some c)"
    by (auto split: if_splits)
  ultimately show ?thesis using assms(4) xs
    by (auto simp: splice_out_def)
qed

lemma splice_out_self:
  assumes "seg B None xs h t None" and "distinct xs" and "v \<in> set xs"
  shows "splice_out B v v = B v"
proof -
  from assms(3) obtain ys zs where xs: "xs = ys @ v # zs" by (auto simp: in_set_conv_decomp)
  with assms(2) have d: "v \<notin> set ys" "v \<notin> set zs" by auto
  from assms(1) xs obtain m where m: "seg B None ys h m (Some v)" "previous (B v) = m"
    "seg B (Some v) zs (next_ptr (B v)) t None"
    by (auto simp: seg_append)
  from seg_tail [OF m(1)] m(2) have "previous (B v) = None \<or> (\<exists>a\<in>set ys. previous (B v) = Some a)"
    by (auto split: if_splits)
  moreover from seg_head [OF m(3)] have "next_ptr (B v) = None \<or> (\<exists>c\<in>set zs. next_ptr (B v) = Some c)"
    by (auto split: if_splits)
  ultimately show ?thesis using d
    by (auto simp: splice_out_def)
qed

lemma attach_seg:
  assumes "seg B None xs h t None" and "distinct xs" and "v \<notin> set xs"
  shows "seg (attach B t v) None (xs @ [v]) (if xs = [] then Some v else h) (Some v) None"
proof (cases xs rule: rev_cases)
  case Nil
  with assms show ?thesis by (simp add: attach_def)
next
  case (snoc ys l)
  with assms show ?thesis by (auto simp: attach_def seg_append)
qed

lemma attach_outside: "x \<noteq> v \<Longrightarrow> t \<noteq> Some x \<Longrightarrow> attach B t v x = B x"
  by (auto simp: attach_def split: option.splits)

subsection \<open>The walks on a well-formed queue\<close>

lemma queue_walk_seg:
  "seg (BufferDescriptors w) p xs h t None \<Longrightarrow> queue_walk w h b = Some (b \<in> set xs)"
proof (induction xs arbitrary: p h)
  case Nil
  then show ?case by (subst queue_walk.simps) simp
next
  case (Cons x xs)
  from Cons.prems have "h = Some x" "seg (BufferDescriptors w) (Some x) xs (next_ptr (BufferDescriptors w x)) t None"
    by auto
  with Cons.IH [of "Some x" "next_ptr (BufferDescriptors w x)"] show ?case
    by (subst queue_walk.simps) auto
qed

lemma a1_size_seg:
  "seg (BufferDescriptors w) p xs h t None \<Longrightarrow> a1_size w h n = Some (n + int (length xs))"
proof (induction xs arbitrary: p h n)
  case Nil
  then show ?case by (subst a1_size.simps) simp
next
  case (Cons x xs)
  from Cons.prems have "h = Some x" "seg (BufferDescriptors w) (Some x) xs (next_ptr (BufferDescriptors w x)) t None"
    by auto
  with Cons.IH [of "Some x" "next_ptr (BufferDescriptors w x)" "n + 1"] show ?case
    by (subst a1_size.simps) auto
qed

lemma scan_a1_seg:
  "seg (BufferDescriptors w) p xs h t None \<Longrightarrow>
   scan_a1 w h =
     Some (case find (\<lambda>i. refcount (BufferDescriptors w i) = 0) xs of
             None \<Rightarrow> (None, - 1, w)
           | Some v \<Rightarrow> (Some v, buf_id (BufferDescriptors w v), unlink_a1 v w))"
proof (induction xs arbitrary: p h)
  case Nil
  then show ?case by (subst scan_a1.simps) simp
next
  case (Cons x xs)
  from Cons.prems have "h = Some x" "seg (BufferDescriptors w) (Some x) xs (next_ptr (BufferDescriptors w x)) t None"
    by auto
  with Cons.IH [of "Some x" "next_ptr (BufferDescriptors w x)"] show ?case
    by (subst scan_a1.simps) auto
qed

lemma scan_am_seg:
  "seg (BufferDescriptors w) p xs h t None \<Longrightarrow>
   scan_am w h =
     Some (case find (\<lambda>i. refcount (BufferDescriptors w i) = 0) xs of
             None \<Rightarrow> (None, - 1, w)
           | Some v \<Rightarrow> (Some v, buf_id (BufferDescriptors w v), unlink_am v w))"
proof (induction xs arbitrary: p h)
  case Nil
  then show ?case by (subst scan_am.simps) simp
next
  case (Cons x xs)
  from Cons.prems have "h = Some x" "seg (BufferDescriptors w) (Some x) xs (next_ptr (BufferDescriptors w x)) t None"
    by auto
  with Cons.IH [of "Some x" "next_ptr (BufferDescriptors w x)"] show ?case
    by (subst scan_am.simps) auto
qed

subsection \<open>The queue code in terms of the store operations\<close>

lemma unlink_a1_store:
  "x \<noteq> v \<Longrightarrow>
     BufferDescriptors (unlink_a1 v w) x = splice_out (BufferDescriptors w) v x"
  by (simp add: unlink_a1_def splice_out_def prim_defs Let_def split: option.split)

lemma unlink_a1_ctl:
  "a1Head (StrategyControl (unlink_a1 v w)) =
     (if previous (BufferDescriptors w v) = None then next_ptr (BufferDescriptors w v)
      else a1Head (StrategyControl w))"
  "a1Tail (StrategyControl (unlink_a1 v w)) =
     (if next_ptr (BufferDescriptors w v) = None then previous (BufferDescriptors w v)
      else a1Tail (StrategyControl w))"
  "firstUnpinned (StrategyControl (unlink_a1 v w)) = firstUnpinned (StrategyControl w)"
  "lastUnpinned (StrategyControl (unlink_a1 v w)) = lastUnpinned (StrategyControl w)"
  "BufferReplacementPolicy (unlink_a1 v w) = BufferReplacementPolicy w"
  "NBuffers (unlink_a1 v w) = NBuffers w"
  "BufFreelistLock (unlink_a1 v w) = BufFreelistLock w"
  by (simp_all add: unlink_a1_def prim_defs Let_def split: option.split)

lemma unlink_am_store:
  "x \<noteq> v \<Longrightarrow>
     BufferDescriptors (unlink_am v w) x = splice_out (BufferDescriptors w) v x"
  by (simp add: unlink_am_def splice_out_def prim_defs Let_def split: option.split)

lemma unlink_am_ctl:
  "firstUnpinned (StrategyControl (unlink_am v w)) =
     (if previous (BufferDescriptors w v) = None then next_ptr (BufferDescriptors w v)
      else firstUnpinned (StrategyControl w))"
  "lastUnpinned (StrategyControl (unlink_am v w)) =
     (if next_ptr (BufferDescriptors w v) = None then previous (BufferDescriptors w v)
      else lastUnpinned (StrategyControl w))"
  "a1Head (StrategyControl (unlink_am v w)) = a1Head (StrategyControl w)"
  "a1Tail (StrategyControl (unlink_am v w)) = a1Tail (StrategyControl w)"
  "BufferReplacementPolicy (unlink_am v w) = BufferReplacementPolicy w"
  "NBuffers (unlink_am v w) = NBuffers w"
  "BufFreelistLock (unlink_am v w) = BufFreelistLock w"
  by (simp_all add: unlink_am_def prim_defs Let_def split: option.split)

lemma queue_unlinked:
  assumes "queue B xs h t" and "v \<in> set xs" and "\<And>x. x \<noteq> v \<Longrightarrow> B' x = splice_out B v x"
  shows "queue B' (remove1 v xs)
           (if previous (B v) = None then next_ptr (B v) else h)
           (if next_ptr (B v) = None then previous (B v) else t)"
proof -
  from assms(1) have d: "distinct xs" and s: "seg B None xs h t None" by (simp_all add: queue_def)
  from d have "v \<notin> set (remove1 v xs)" by simp
  with assms(3) have "\<And>x. x \<in> set (remove1 v xs) \<Longrightarrow> B' x = splice_out B v x" by metis
  then have "seg B' None (remove1 v xs)
           (if previous (B v) = None then next_ptr (B v) else h)
           (if next_ptr (B v) = None then previous (B v) else t) None =
         seg (splice_out B v) None (remove1 v xs)
           (if previous (B v) = None then next_ptr (B v) else h)
           (if next_ptr (B v) = None then previous (B v) else t) None"
    by (intro seg_cong) simp
  with splice_out_seg [OF s d assms(2)] d show ?thesis by (simp add: queue_def)
qed

lemma queue_untouched:
  assumes "queue B ys h t" and "\<And>x. x \<in> set ys \<Longrightarrow> B' x = B x"
  shows "queue B' ys h t"
  using assms seg_cong [of ys B' B None h t None] by (simp add: queue_def)

lemma unlink_a1_queues:
  assumes "a1_queue w as" and "main_queue w ms" and "set ms \<inter> set as = {}" and "v \<in> set as"
  shows "a1_queue (unlink_a1 v w) (remove1 v as)" and "main_queue (unlink_a1 v w) ms"
proof -
  show "a1_queue (unlink_a1 v w) (remove1 v as)"
    using assms(1,4) queue_unlinked [of "BufferDescriptors w" as _ _ v "BufferDescriptors (unlink_a1 v w)"]
    by (simp add: a1_queue_def unlink_a1_store unlink_a1_ctl)
  have "BufferDescriptors (unlink_a1 v w) x = BufferDescriptors w x" if "x \<in> set ms" for x
  proof -
    from that assms(3,4) have x: "x \<notin> set as" "x \<noteq> v" by auto
    from assms(1) have "seg (BufferDescriptors w) None as (a1Head (StrategyControl w))
        (a1Tail (StrategyControl w)) None" "distinct as"
      by (simp_all add: a1_queue_def queue_def)
    from splice_out_outside [OF this assms(4) x(1)] x(2) show ?thesis
      by (simp add: unlink_a1_store)
  qed
  with assms(2) show "main_queue (unlink_a1 v w) ms"
    by (auto simp: main_queue_def unlink_a1_ctl intro: queue_untouched)
qed

lemma unlink_am_queues:
  assumes "a1_queue w as" and "main_queue w ms" and "set ms \<inter> set as = {}" and "v \<in> set ms"
  shows "main_queue (unlink_am v w) (remove1 v ms)" and "a1_queue (unlink_am v w) as"
proof -
  show "main_queue (unlink_am v w) (remove1 v ms)"
    using assms(2,4) queue_unlinked [of "BufferDescriptors w" ms _ _ v "BufferDescriptors (unlink_am v w)"]
    by (simp add: main_queue_def unlink_am_store unlink_am_ctl)
  have "BufferDescriptors (unlink_am v w) x = BufferDescriptors w x" if "x \<in> set as" for x
  proof -
    from that assms(3,4) have x: "x \<notin> set ms" "x \<noteq> v" by auto
    from assms(2) have "seg (BufferDescriptors w) None ms (firstUnpinned (StrategyControl w))
        (lastUnpinned (StrategyControl w)) None" "distinct ms"
      by (simp_all add: main_queue_def queue_def)
    from splice_out_outside [OF this assms(4) x(1)] x(2) show ?thesis
      by (simp add: unlink_am_store)
  qed
  with assms(1) show "a1_queue (unlink_am v w) as"
    by (auto simp: a1_queue_def unlink_am_ctl intro: queue_untouched)
qed

subsection \<open>Victim selection under 2Q\<close>

lemma queue_empty_iff:
  assumes "queue B xs h t"
  shows "h = None \<longleftrightarrow> xs = []" and "t = None \<longleftrightarrow> xs = []"
  using assms seg_head [of B None xs h t None] seg_tail [of B None xs h t None]
  by (auto simp: queue_def)

lemma sdiv_two: "0 \<le> (n::int) \<Longrightarrow> n sdiv 2 = n div 2"
  by (cases "n = 0") (auto simp: signed_divide_int_def sgn_if)

lemma select_victim_2q:
  assumes "BufferReplacementPolicy w = POLICY_2Q" and "0 \<le> NBuffers w"
    and "main_queue w ms" and "a1_queue w as"
    and "\<forall>i\<in>set (ms @ as). buf_id (BufferDescriptors w i) = int i \<and> int i < NBuffers w"
  shows "select_victim st w =
    Some (if int (length as) \<ge> NBuffers w div 2 \<or> ms = [] then
            (case find (\<lambda>i. refcount (BufferDescriptors w i) = 0) as of
               None \<Rightarrow> (Inl NoUnpinnedBuffers, st, w)
             | Some v \<Rightarrow> (Inr (v, True), st, unlink_a1 v w))
          else
            (case find (\<lambda>i. refcount (BufferDescriptors w i) = 0) ms of
               None \<Rightarrow> (Inl NoUnpinnedBuffers, st, w)
             | Some v \<Rightarrow> (Inr (v, True), st, unlink_am v w)))"
proof -
  let ?B = "BufferDescriptors w"
  let ?U = "\<lambda>i. refcount (?B i) = 0"
  from assms(4) have sa: "seg ?B None as (a1Head (StrategyControl w)) (a1Tail (StrategyControl w)) None"
    by (simp add: a1_queue_def queue_def)
  from assms(3) have sm: "seg ?B None ms (firstUnpinned (StrategyControl w)) (lastUnpinned (StrategyControl w)) None"
    by (simp add: main_queue_def queue_def)
  have size: "a1_size w (a1Head (StrategyControl w)) 0 = Some (int (length as))"
    using a1_size_seg [OF sa, of 0] by simp
  have empty: "lastUnpinned (StrategyControl w) = None \<longleftrightarrow> ms = []"
    using assms(3) queue_empty_iff(2) by (simp add: main_queue_def)
  have ret_a1: "return_result (buf_id (?B v)) st (unlink_a1 v w) = (Inr (v, True), st, unlink_a1 v w)"
    if "v \<in> set as" for v
    using that assms(5) by (auto simp: return_result_def valid_index_def unlink_a1_ctl)
  have ret_am: "return_result (buf_id (?B v)) st (unlink_am v w) = (Inr (v, True), st, unlink_am v w)"
    if "v \<in> set ms" for v
    using that assms(5) by (auto simp: return_result_def valid_index_def unlink_am_ctl)
  show ?thesis
  proof (cases "int (length as) \<ge> NBuffers w div 2 \<or> ms = []")
    case True
    show ?thesis
    proof (cases "find ?U as")
      case None
      with True assms(1,2) size empty scan_a1_seg [OF sa] show ?thesis
        by (simp add: select_victim_def sdiv_two)
    next
      case (Some v)
      then have "v \<in> set as" by (auto simp: find_Some_iff)
      with Some True assms(1,2) size empty scan_a1_seg [OF sa] ret_a1 show ?thesis
        by (simp add: select_victim_def sdiv_two)
    qed
  next
    case False
    with empty obtain l where c: "\<not> NBuffers w div 2 \<le> int (length as)" "ms \<noteq> []"
      "lastUnpinned (StrategyControl w) = Some l" by auto
    show ?thesis
    proof (cases "find ?U ms")
      case None
      with c assms(1,2) size scan_am_seg [OF sm] show ?thesis
        by (simp add: select_victim_def sdiv_two)
    next
      case (Some v)
      then have "v \<in> set ms" by (auto simp: find_Some_iff)
      with Some c assms(1,2) size scan_am_seg [OF sm] ret_am show ?thesis
        by (simp add: select_victim_def sdiv_two)
    qed
  qed
qed

lemma queues_lock_and_count:
  "main_queue (lock_and_count w) ms = main_queue w ms"
  "a1_queue (lock_and_count w) as = a1_queue w as"
  by (simp_all add: main_queue_def a1_queue_def lock_and_count_frame)

lemma get_buffer_2q:
  assumes "BufferReplacementPolicy w = POLICY_2Q" and "0 \<le> NBuffers w"
    and "firstFreeBuffer (StrategyControl w) < 0"
    and "main_queue w ms" and "a1_queue w as"
    and "\<forall>i\<in>set (ms @ as). buf_id (BufferDescriptors w i) = int i \<and> int i < NBuffers w"
  shows "StrategyGetBuffer None w =
    Some (if int (length as) \<ge> NBuffers w div 2 \<or> ms = [] then
            (case find (\<lambda>i. refcount (BufferDescriptors w i) = 0) as of
               None \<Rightarrow> (Inl NoUnpinnedBuffers, None, lock_and_count w)
             | Some v \<Rightarrow> (Inr (v, True), None, unlink_a1 v (lock_and_count w)))
          else
            (case find (\<lambda>i. refcount (BufferDescriptors w i) = 0) ms of
               None \<Rightarrow> (Inl NoUnpinnedBuffers, None, lock_and_count w)
             | Some v \<Rightarrow> (Inr (v, True), None, unlink_am v (lock_and_count w))))"
proof -
  let ?w = "lock_and_count w"
  have fl: "freelist_loop None ?w = Some (Inr None, None, ?w)"
    using assms(3) by (subst freelist_loop.simps) (simp add: lock_and_count_frame)
  have "select_victim None ?w =
    Some (if int (length as) \<ge> NBuffers ?w div 2 \<or> ms = [] then
            (case find (\<lambda>i. refcount (BufferDescriptors ?w i) = 0) as of
               None \<Rightarrow> (Inl NoUnpinnedBuffers, None, ?w)
             | Some v \<Rightarrow> (Inr (v, True), None, unlink_a1 v ?w))
          else
            (case find (\<lambda>i. refcount (BufferDescriptors ?w i) = 0) ms of
               None \<Rightarrow> (Inl NoUnpinnedBuffers, None, ?w)
             | Some v \<Rightarrow> (Inr (v, True), None, unlink_am v ?w)))"
    by (rule select_victim_2q) (use assms in \<open>simp_all add: lock_and_count_frame queues_lock_and_count\<close>)
  with fl show ?thesis
    by (simp add: StrategyGetBuffer_def get_buffer_global_def lock_and_count_frame)
qed

lemma get_buffer_2q_refines:
  assumes "BufferReplacementPolicy w = POLICY_2Q" and "0 \<le> NBuffers w"
    and "firstFreeBuffer (StrategyControl w) < 0"
    and "main_queue w ms" and "a1_queue w as" and "set ms \<inter> set as = {}"
    and "\<forall>i\<in>set (ms @ as). buf_id (BufferDescriptors w i) = int i \<and> int i < NBuffers w"
  shows "case spec_select_2q (NBuffers w) (\<lambda>i. refcount (BufferDescriptors w i) = 0) ms as of
           (res, ms', as') \<Rightarrow>
             \<exists>w'. StrategyGetBuffer None w =
                     Some ((case res of Inl e \<Rightarrow> Inl e | Inr v \<Rightarrow> Inr (v, True)), None, w') \<and>
                  main_queue w' ms' \<and> a1_queue w' as'"
proof -
  let ?w = "lock_and_count w"
  let ?U = "\<lambda>i. refcount (BufferDescriptors w i) = 0"
  note g = get_buffer_2q [OF assms(1-5) assms(7)]
  have q: "main_queue ?w ms" "a1_queue ?w as"
    using assms(4,5) by (simp_all add: queues_lock_and_count)
  show ?thesis
  proof (cases "int (length as) \<ge> NBuffers w div 2 \<or> ms = []")
    case True
    show ?thesis
    proof (cases "find ?U as")
      case None
      with True g q show ?thesis by (simp add: spec_select_2q_def)
    next
      case (Some v)
      then have "v \<in> set as" by (auto simp: find_Some_iff)
      from unlink_a1_queues [OF q(2) q(1) assms(6) this] Some True g
      show ?thesis by (simp add: spec_select_2q_def)
    qed
  next
    case False
    show ?thesis
    proof (cases "find ?U ms")
      case None
      with False g q show ?thesis by (simp add: spec_select_2q_def)
    next
      case (Some v)
      then have "v \<in> set ms" by (auto simp: find_Some_iff)
      from unlink_am_queues [OF q(2) q(1) assms(6) this] Some False g
      show ?thesis by (simp add: spec_select_2q_def)
    qed
  qed
qed

subsection \<open>The unpin hook under 2Q\<close>

lemma seg_mem_next:
  assumes "seg B None xs h t None" and "distinct xs" and "v \<in> set xs"
  shows "next_ptr (B v) = None \<longleftrightarrow> v = last xs"
    and "next_ptr (B v) = Some n \<Longrightarrow> n \<in> set xs \<and> n \<noteq> v"
proof -
  from assms(3) obtain ys zs where xs: "xs = ys @ v # zs" by (auto simp: in_set_conv_decomp)
  with assms(2) have d: "v \<notin> set ys" "v \<notin> set zs" by auto
  from assms(1) xs have z: "seg B (Some v) zs (next_ptr (B v)) t None"
    by (auto simp: seg_append)
  from seg_head [OF z] have nx: "next_ptr (B v) = (if zs = [] then None else Some (hd zs))" .
  show "next_ptr (B v) = None \<longleftrightarrow> v = last xs"
    using nx xs d by (cases zs rule: rev_cases) auto
  show "n \<in> set xs \<and> n \<noteq> v" if "next_ptr (B v) = Some n"
    using that nx xs d by (cases zs) (auto split: if_splits)
qed

lemma remove1_last_snoc: "distinct xs \<Longrightarrow> xs \<noteq> [] \<Longrightarrow> remove1 (last xs) xs @ [last xs] = xs"
  by (cases xs rule: rev_cases) (auto simp: remove1_append)

lemma move_to_tail_facts:
  assumes "next_ptr (BufferDescriptors w v) = Some n"
  shows "fst (move_to_tail v (Some l) (previous (BufferDescriptors w v)) n w) = Inr ()"
    and "BufferDescriptors (snd (move_to_tail v (Some l) (previous (BufferDescriptors w v)) n w)) =
           attach (splice_out (BufferDescriptors w) v) (Some l) v"
    and "firstUnpinned (StrategyControl (snd (move_to_tail v (Some l) (previous (BufferDescriptors w v)) n w))) =
           (if previous (BufferDescriptors w v) = None then Some n else firstUnpinned (StrategyControl w))"
    and "lastUnpinned (StrategyControl (snd (move_to_tail v (Some l) (previous (BufferDescriptors w v)) n w))) = Some v"
    and "a1Head (StrategyControl (snd (move_to_tail v (Some l) (previous (BufferDescriptors w v)) n w))) =
           a1Head (StrategyControl w)"
    and "a1Tail (StrategyControl (snd (move_to_tail v (Some l) (previous (BufferDescriptors w v)) n w))) =
           a1Tail (StrategyControl w)"
  using assms
  by (auto simp: move_to_tail_def attach_def splice_out_def prim_defs Let_def split: option.split)

lemma moved_to_tail_queues:
  assumes "main_queue w ms" and "a1_queue w as" and "set ms \<inter> set as = {}" and "v \<in> set ms"
    and "next_ptr (BufferDescriptors w v) = Some n"
    and "lastUnpinned (StrategyControl w) = Some l"
  shows "main_queue (snd (move_to_tail v (Some l) (previous (BufferDescriptors w v)) n w))
           (remove1 v ms @ [v])"
    and "a1_queue (snd (move_to_tail v (Some l) (previous (BufferDescriptors w v)) n w)) as"
proof -
  let ?B = "BufferDescriptors w"
  let ?S = "splice_out ?B v"
  let ?w' = "snd (move_to_tail v (Some l) (previous (BufferDescriptors w v)) n w)"
  note f = move_to_tail_facts [OF assms(5), of l]
  from assms(1) have sm: "seg ?B None ms (firstUnpinned (StrategyControl w)) (Some l) None"
    and dm: "distinct ms"
    using assms(6) by (simp_all add: main_queue_def queue_def)
  from seg_mem_next(2) [OF sm dm assms(4) assms(5)] have n: "n \<in> set ms" "n \<noteq> v" by simp_all
  have s1: "seg ?S None (remove1 v ms)
            (if previous (?B v) = None then Some n else firstUnpinned (StrategyControl w)) (Some l) None"
    using splice_out_seg [OF sm dm assms(4)] assms(5) by (auto split: if_splits)
  have ne: "remove1 v ms \<noteq> []" using n by (metis empty_iff empty_set in_set_remove1)
  from attach_seg [OF s1 _ _, of v] dm ne
  have "seg (attach ?S (Some l) v) None (remove1 v ms @ [v])
          (if previous (?B v) = None then Some n else firstUnpinned (StrategyControl w)) (Some v) None"
    by simp
  with dm show "main_queue ?w' (remove1 v ms @ [v])"
    by (simp add: main_queue_def queue_def f)
  have lm: "l \<in> set ms" using seg_tail [OF sm] assms(4) by (auto split: if_splits)
  have "BufferDescriptors ?w' x = ?B x" if "x \<in> set as" for x
  proof -
    from that assms(3,4) lm have x: "x \<notin> set ms" "x \<noteq> v" "Some l \<noteq> Some x" by auto
    from splice_out_outside [OF sm dm assms(4) x(1)] attach_outside [OF x(2,3), of ?S]
    show ?thesis by (simp add: f)
  qed
  with assms(2) show "a1_queue ?w' as"
    by (auto simp: a1_queue_def f intro: queue_untouched)
qed

lemma promote_from_a1_facts:
  fixes w :: world and v :: nat and first' last' :: "nat option"
  assumes "first' = None \<longleftrightarrow> last' = None"
  defines "w' \<equiv> promote_from_a1 v first' last' (previous (BufferDescriptors w v))
                   (next_ptr (BufferDescriptors w v)) w"
  shows "BufferDescriptors w' = attach (splice_out (BufferDescriptors w) v) last' v"
    and "a1Head (StrategyControl w') =
           (if previous (BufferDescriptors w v) = None then next_ptr (BufferDescriptors w v)
            else a1Head (StrategyControl w))"
    and "a1Tail (StrategyControl w') =
           (if next_ptr (BufferDescriptors w v) = None then previous (BufferDescriptors w v)
            else a1Tail (StrategyControl w))"
    and "firstUnpinned (StrategyControl w') =
           (if last' = None then Some v else firstUnpinned (StrategyControl w))"
    and "lastUnpinned (StrategyControl w') = Some v"
  using assms(1) unfolding w'_def
  by (auto simp: promote_from_a1_def attach_def splice_out_def prim_defs Let_def split: option.split)

lemma append_to_a1_facts:
  assumes "a1Head (StrategyControl w) = None \<longleftrightarrow> a1Tail (StrategyControl w) = None"
  shows "BufferDescriptors (append_to_a1 v w) = attach (BufferDescriptors w) (a1Tail (StrategyControl w)) v"
    and "a1Head (StrategyControl (append_to_a1 v w)) =
           (if a1Tail (StrategyControl w) = None then Some v else a1Head (StrategyControl w))"
    and "a1Tail (StrategyControl (append_to_a1 v w)) = Some v"
    and "firstUnpinned (StrategyControl (append_to_a1 v w)) = firstUnpinned (StrategyControl w)"
    and "lastUnpinned (StrategyControl (append_to_a1 v w)) = lastUnpinned (StrategyControl w)"
  using assms
  by (auto simp: append_to_a1_def attach_def prim_defs Let_def split: option.split)

lemma queue_attached:
  assumes "queue B xs h t" and "v \<notin> set xs"
  shows "queue (attach B t v) (xs @ [v]) (if t = None then Some v else h) (Some v)"
proof -
  from assms(1) have s: "seg B None xs h t None" and d: "distinct xs" by (simp_all add: queue_def)
  from queue_empty_iff(2) [OF assms(1)] have "t = None \<longleftrightarrow> xs = []" .
  with attach_seg [OF s d assms(2)] d assms(2) show ?thesis by (simp add: queue_def)
qed

lemma queue_tail_mem: "queue B xs h (Some l) \<Longrightarrow> l \<in> set xs"
  using seg_tail [of B None xs h "Some l" None] by (auto simp: queue_def split: if_splits)

lemma promoted_queues:
  fixes w :: world and v :: nat
  assumes "main_queue w ms" and "a1_queue w as" and "set ms \<inter> set as = {}" and "v \<in> set as"
  defines "w' \<equiv> promote_from_a1 v (firstUnpinned (StrategyControl w)) (lastUnpinned (StrategyControl w))
                   (previous (BufferDescriptors w v)) (next_ptr (BufferDescriptors w v)) w"
  shows "main_queue w' (ms @ [v])" and "a1_queue w' (remove1 v as)"
proof -
  let ?B = "BufferDescriptors w"
  let ?S = "splice_out ?B v"
  let ?t = "lastUnpinned (StrategyControl w)"
  from assms(1) have e: "firstUnpinned (StrategyControl w) = None \<longleftrightarrow> ?t = None"
    using queue_empty_iff [of ?B ms] by (simp add: main_queue_def)
  note f = promote_from_a1_facts [OF e, of v w, folded w'_def]
  from assms(2) have sa: "seg ?B None as (a1Head (StrategyControl w)) (a1Tail (StrategyControl w)) None"
    and da: "distinct as" by (simp_all add: a1_queue_def queue_def)
  have vm: "v \<notin> set ms" using assms(3,4) by auto
  have "?S x = ?B x" if "x \<in> set ms" for x
    using that assms(3) splice_out_outside [OF sa da assms(4), of x] by auto
  with assms(1) have "queue ?S ms (firstUnpinned (StrategyControl w)) ?t"
    by (auto simp: main_queue_def intro: queue_untouched)
  from queue_attached [OF this vm] e show "main_queue w' (ms @ [v])"
    by (simp add: main_queue_def f)
  have "BufferDescriptors w' x = ?S x" if "x \<noteq> v \<and> x \<in> set as" for x
  proof -
    have "?t \<noteq> Some x"
    proof
      assume "?t = Some x"
      with assms(1) have "x \<in> set ms" by (auto simp: main_queue_def dest: queue_tail_mem)
      with that assms(3) show False by auto
    qed
    with that show ?thesis by (simp add: f attach_outside)
  qed
  moreover have "x \<noteq> v \<and> x \<in> set as" if "x \<in> set (remove1 v as)" for x
    using that da by (auto dest: notin_set_remove1)
  ultimately have "BufferDescriptors w' x = ?S x" if "x \<in> set (remove1 v as)" for x
    using that by blast
  then have "seg (BufferDescriptors w') None (remove1 v as)
       (a1Head (StrategyControl w')) (a1Tail (StrategyControl w')) None =
     seg ?S None (remove1 v as) (a1Head (StrategyControl w')) (a1Tail (StrategyControl w')) None"
    by (intro seg_cong) simp
  with splice_out_seg [OF sa da assms(4)] da show "a1_queue w' (remove1 v as)"
    by (simp add: a1_queue_def queue_def f)
qed

lemma appended_queues:
  assumes "main_queue w ms" and "a1_queue w as" and "set ms \<inter> set as = {}"
    and "v \<notin> set ms" and "v \<notin> set as"
  shows "main_queue (append_to_a1 v w) ms" and "a1_queue (append_to_a1 v w) (as @ [v])"
proof -
  let ?B = "BufferDescriptors w"
  let ?t = "a1Tail (StrategyControl w)"
  from assms(2) have e: "a1Head (StrategyControl w) = None \<longleftrightarrow> ?t = None"
    using queue_empty_iff [of ?B as] by (simp add: a1_queue_def)
  note f = append_to_a1_facts [OF e, of v]
  from assms(2) have "queue ?B as (a1Head (StrategyControl w)) ?t" by (simp add: a1_queue_def)
  from queue_attached [OF this assms(5)] show "a1_queue (append_to_a1 v w) (as @ [v])"
    by (simp add: a1_queue_def f)
  have "attach ?B ?t v x = ?B x" if "x \<in> set ms" for x
  proof -
    have "?t \<noteq> Some x"
    proof
      assume "?t = Some x"
      with assms(2) have "x \<in> set as" by (auto simp: a1_queue_def dest: queue_tail_mem)
      with that assms(3) show False by auto
    qed
    moreover from that assms(4) have "x \<noteq> v" by auto
    ultimately show ?thesis by (simp add: attach_outside)
  qed
  with assms(1) show "main_queue (append_to_a1 v w) ms"
    by (auto simp: main_queue_def f intro: queue_untouched)
qed

lemma lwlock_frame:
  "BufferDescriptors (LWLockAcquire w) = BufferDescriptors w"
  "StrategyControl (LWLockAcquire w) = StrategyControl w"
  "BufferReplacementPolicy (LWLockAcquire w) = BufferReplacementPolicy w"
  "NBuffers (LWLockAcquire w) = NBuffers w"
  "BufferDescriptors (LWLockRelease w) = BufferDescriptors w"
  "StrategyControl (LWLockRelease w) = StrategyControl w"
  "BufferReplacementPolicy (LWLockRelease w) = BufferReplacementPolicy w"
  "NBuffers (LWLockRelease w) = NBuffers w"
  "\<not> BufFreelistLock (LWLockRelease w)"
  by (simp_all add: prim_defs)

lemma queues_lwlock:
  "main_queue (LWLockAcquire w) ms = main_queue w ms"
  "a1_queue (LWLockAcquire w) as = a1_queue w as"
  "main_queue (LWLockRelease w) ms = main_queue w ms"
  "a1_queue (LWLockRelease w) as = a1_queue w as"
  by (simp_all add: main_queue_def a1_queue_def lwlock_frame)

lemma unpinned_2q:
  assumes "BufferReplacementPolicy w = POLICY_2Q" and "\<not> BufFreelistLock w" and "valid_index w i"
    and "main_queue w ms" and "a1_queue w as" and "set ms \<inter> set as = {}"
  shows "\<exists>w'. BufferUnpinned i w = Some (Inr (), w') \<and>
           main_queue w' (fst (spec_unpinned_2q (nat i) ms as)) \<and>
           a1_queue w' (snd (spec_unpinned_2q (nat i) ms as)) \<and>
           BufferReplacementPolicy w' = POLICY_2Q"
proof -
  let ?v = "nat i"
  let ?w = "LWLockAcquire w"
  let ?B = "BufferDescriptors w"
  let ?first = "firstUnpinned (StrategyControl w)"
  let ?last = "lastUnpinned (StrategyControl w)"
  have q: "main_queue ?w ms" "a1_queue ?w as" using assms(4,5) by (simp_all add: queues_lwlock)
  from assms(4) have sm: "seg ?B None ms ?first ?last None" and dm: "distinct ms"
    by (simp_all add: main_queue_def queue_def)
  from assms(5) have sa: "seg ?B None as (a1Head (StrategyControl w)) (a1Tail (StrategyControl w)) None"
    by (simp_all add: a1_queue_def queue_def)
  have walk_m: "queue_walk ?w ?first ?v = Some (?v \<in> set ms)"
    using queue_walk_seg [of ?w None ms ?first ?last ?v] sm by (simp add: lwlock_frame)
  have walk_a: "queue_walk ?w (a1Head (StrategyControl w)) ?v = Some (?v \<in> set as)"
    using queue_walk_seg [of ?w None as _ _ ?v] sa by (simp add: lwlock_frame)
  show ?thesis
  proof (cases "?v \<in> set ms")
    case True
    show ?thesis
    proof (cases "next_ptr (?B ?v)")
      case None
      with seg_mem_next(1) [OF sm dm True] have "?v = last ms" by simp
      moreover from True have "ms \<noteq> []" by auto
      ultimately have "remove1 ?v ms @ [?v] = ms"
        using remove1_last_snoc [OF dm] by simp
      with True None walk_m assms show ?thesis
        by (simp add: BufferUnpinned_def Let_def spec_unpinned_2q_def lwlock_frame queues_lwlock)
    next
      case (Some n)
      from True assms(4) obtain l where l: "?last = Some l"
        using queue_empty_iff(2) [of ?B ms ?first ?last] by (auto simp: main_queue_def)
      let ?r = "move_to_tail ?v (Some l) (previous (BufferDescriptors ?w ?v)) n ?w"
      have nx: "next_ptr (BufferDescriptors ?w ?v) = Some n" using Some by (simp add: lwlock_frame)
      have lw: "lastUnpinned (StrategyControl ?w) = Some l" using l by (simp add: lwlock_frame)
      note m = moved_to_tail_queues [OF q assms(6) True nx lw]
      have ok: "fst ?r = Inr ()" by (rule move_to_tail_facts(1) [OF nx])
      have pol: "BufferReplacementPolicy (snd ?r) = BufferReplacementPolicy w"
        by (simp add: move_to_tail_def prim_defs Let_def split: option.split)
      have "BufferUnpinned i w = Some (Inr (), LWLockRelease (snd ?r))"
        using True Some l walk_m assms(1-3) ok
        by (cases ?r) (simp add: BufferUnpinned_def Let_def lwlock_frame)
      with m True pol assms(1) show ?thesis
        by (simp add: spec_unpinned_2q_def queues_lwlock lwlock_frame)
    qed
  next
    case False
    show ?thesis
    proof (cases "?v \<in> set as")
      case True
      let ?w' = "promote_from_a1 ?v (firstUnpinned (StrategyControl ?w)) (lastUnpinned (StrategyControl ?w))
                   (previous (BufferDescriptors ?w ?v)) (next_ptr (BufferDescriptors ?w ?v)) ?w"
      note p = promoted_queues [OF q assms(6) True]
      have pol: "BufferReplacementPolicy ?w' = BufferReplacementPolicy w"
        by (simp add: promote_from_a1_def prim_defs Let_def split: option.split)
      have "BufferUnpinned i w = Some (Inr (), LWLockRelease ?w')"
        using True False walk_m walk_a assms(1-3)
        by (simp add: BufferUnpinned_def Let_def lwlock_frame)
      with p True False pol assms(1) show ?thesis
        by (simp add: spec_unpinned_2q_def queues_lwlock lwlock_frame)
    next
      case na: False
      note a = appended_queues [OF q assms(6) False na]
      have pol: "BufferReplacementPolicy (append_to_a1 ?v ?w) = BufferReplacementPolicy w"
        by (simp add: append_to_a1_def prim_defs Let_def split: option.split)
      have "BufferUnpinned i w = Some (Inr (), LWLockRelease (append_to_a1 ?v ?w))"
        using na False walk_m walk_a assms(1-3)
        by (simp add: BufferUnpinned_def Let_def lwlock_frame)
      with a na False pol assms(1) show ?thesis
        by (simp add: spec_unpinned_2q_def queues_lwlock lwlock_frame)
    qed
  qed
qed

subsection \<open>What every run keeps\<close>

lemma same_queues_main:
  assumes "same_queues w w'"
  shows "main_queue w' ms = main_queue w ms" and "a1_queue w' as = a1_queue w as"
proof -
  from assms have l: "\<And>x. previous (BufferDescriptors w' x) = previous (BufferDescriptors w x) \<and>
      next_ptr (BufferDescriptors w' x) = next_ptr (BufferDescriptors w x)"
    by (simp add: same_queues_def)
  from assms l show "main_queue w' ms = main_queue w ms"
    using seg_cong [of ms "BufferDescriptors w'" "BufferDescriptors w"]
    by (simp add: main_queue_def queue_def same_queues_def)
  from assms l show "a1_queue w' as = a1_queue w as"
    using seg_cong [of as "BufferDescriptors w'" "BufferDescriptors w"]
    by (simp add: a1_queue_def queue_def same_queues_def)
qed

lemma queues_kept_same_setup:
  assumes "same_setup w w'" and "queues_kept w"
  shows "queues_kept w'"
  using assms same_queues_main [of w w']
  by (auto simp: queues_kept_def two_queues_def same_setup_def same_queues_def)

lemma select_victim_2q_kept:
  assumes "BufferReplacementPolicy w = POLICY_2Q" and "two_queues w"
    and "select_victim st w = Some y"
  shows "two_queues (snd (snd y)) \<and> BufferReplacementPolicy (snd (snd y)) = POLICY_2Q"
proof -
  from assms(2) obtain ms as where q: "main_queue w ms" "a1_queue w as" "set ms \<inter> set as = {}"
    by (auto simp: two_queues_def)
  let ?B = "BufferDescriptors w"
  let ?U = "\<lambda>i. refcount (?B i) = 0"
  from q(2) have sa: "seg ?B None as (a1Head (StrategyControl w)) (a1Tail (StrategyControl w)) None"
    by (simp add: a1_queue_def queue_def)
  from q(1) have sm: "seg ?B None ms (firstUnpinned (StrategyControl w)) (lastUnpinned (StrategyControl w)) None"
    by (simp add: main_queue_def queue_def)
  have size: "a1_size w (a1Head (StrategyControl w)) 0 = Some (int (length as))"
    using a1_size_seg [OF sa, of 0] by simp
  have keep: "two_queues w \<and> BufferReplacementPolicy w = POLICY_2Q"
    using assms by simp
  have ka: "two_queues (unlink_a1 v w) \<and> BufferReplacementPolicy (unlink_a1 v w) = POLICY_2Q"
    if "v \<in> set as" for v
  proof -
    have "set ms \<inter> set (remove1 v as) = {}" using q(3) set_remove1_subset [of v as] by blast
    with unlink_a1_queues [OF q(2) q(1) q(3) that] have "two_queues (unlink_a1 v w)"
      unfolding two_queues_def by blast
    with assms(1) show ?thesis by (simp add: unlink_a1_ctl)
  qed
  have km: "two_queues (unlink_am v w) \<and> BufferReplacementPolicy (unlink_am v w) = POLICY_2Q"
    if "v \<in> set ms" for v
  proof -
    have "set (remove1 v ms) \<inter> set as = {}" using q(3) set_remove1_subset [of v ms] by blast
    with unlink_am_queues [OF q(2) q(1) q(3) that] have "two_queues (unlink_am v w)"
      unfolding two_queues_def by blast
    with assms(1) show ?thesis by (simp add: unlink_am_ctl)
  qed
  show ?thesis
  proof (cases "int (length as) \<ge> NBuffers w sdiv 2 \<or> lastUnpinned (StrategyControl w) = None")
    case True
    show ?thesis
    proof (cases "find ?U as")
      case None
      with True assms(1,3) size scan_a1_seg [OF sa] keep show ?thesis
        by (auto simp: select_victim_def)
    next
      case (Some v)
      then have v: "v \<in> set as" by (auto simp: find_Some_iff)
      from Some True assms(1,3) size scan_a1_seg [OF sa]
      have "snd (snd y) = unlink_a1 v w"
        by (auto simp: select_victim_def return_result_world)
      with ka [OF v] show ?thesis by simp
    qed
  next
    case False
    then have c: "\<not> int (length as) \<ge> NBuffers w sdiv 2" "lastUnpinned (StrategyControl w) \<noteq> None"
      by auto
    show ?thesis
    proof (cases "find ?U ms")
      case None
      with c assms(1,3) size scan_am_seg [OF sm] keep show ?thesis
        by (auto simp: select_victim_def)
    next
      case (Some v)
      then have v: "v \<in> set ms" by (auto simp: find_Some_iff)
      from Some c assms(1,3) size scan_am_seg [OF sm]
      have "snd (snd y) = unlink_am v w"
        by (auto simp: select_victim_def return_result_world)
      with km [OF v] show ?thesis by simp
    qed
  qed
qed

lemma two_queues_same_setup:
  assumes "same_setup w w'" and "two_queues w"
  shows "two_queues w'"
  using assms same_queues_main [of w w'] by (auto simp: two_queues_def same_setup_def)

lemma get_buffer_global_2q_kept:
  assumes "BufferReplacementPolicy w = POLICY_2Q" and "two_queues w"
    and "get_buffer_global st w = Some y"
  shows "two_queues (snd (snd y)) \<and> BufferReplacementPolicy (snd (snd y)) = POLICY_2Q"
proof -
  from assms(3) obtain y1 where y1: "freelist_loop st (lock_and_count w) = Some y1"
    by (auto simp: get_buffer_global_def split: option.splits)
  from freelist_loop_same_setup [OF y1] have s1: "same_setup w (snd (snd y1))"
    by (rule same_setup_trans [OF same_setup_steps(3)])
  from s1 assms(1) two_queues_same_setup [OF s1 assms(2)]
  have k1: "two_queues (snd (snd y1))" "BufferReplacementPolicy (snd (snd y1)) = POLICY_2Q"
    by (simp_all add: same_setup_def)
  show ?thesis
  proof (cases "fst y1 = Inr None")
    case False
    with assms(3) y1 have "snd (snd y) = snd (snd y1)"
      by (cases y1) (auto simp: get_buffer_global_def split: sum.splits option.splits)
    with k1 show ?thesis by simp
  next
    case True
    with assms(3) y1 have sv: "select_victim (fst (snd y1)) (snd (snd y1)) = Some y"
      by (cases y1) (auto simp: get_buffer_global_def)
    from select_victim_2q_kept [OF k1(2) k1(1) sv] show ?thesis .
  qed
qed

lemma StrategyGetBuffer_2q_kept:
  assumes "BufferReplacementPolicy w = POLICY_2Q" and "two_queues w"
    and "StrategyGetBuffer st w = Some y"
  shows "two_queues (snd (snd y)) \<and> BufferReplacementPolicy (snd (snd y)) = POLICY_2Q"
proof (cases st)
  case None
  with assms get_buffer_global_2q_kept show ?thesis by (simp add: StrategyGetBuffer_def)
next
  case (Some s)
  obtain r s' w' where g: "GetBufferFromRing s w = (r, s', w')" by (cases "GetBufferFromRing s w") auto
  from ring_same_setup [OF g] have s1: "same_setup w w'" .
  with assms(1) two_queues_same_setup [OF s1 assms(2)]
  have k1: "two_queues w'" "BufferReplacementPolicy w' = POLICY_2Q"
    by (simp_all add: same_setup_def)
  show ?thesis
  proof (cases "r = Inr None")
    case False
    with assms(3) Some g have "snd (snd y) = w'"
      by (auto simp: StrategyGetBuffer_def split: sum.splits option.splits)
    with k1 show ?thesis by simp
  next
    case True
    with assms(3) Some g have gg: "get_buffer_global (Some s') w' = Some y"
      by (auto simp: StrategyGetBuffer_def)
    from get_buffer_global_2q_kept [OF k1(2) k1(1) gg] show ?thesis .
  qed
qed

lemma StrategyGetBuffer_kept:
  assumes "queues_kept w" and "StrategyGetBuffer st w = Some y"
  shows "queues_kept (snd (snd y))"
proof (cases "BufferReplacementPolicy w = POLICY_2Q")
  case True
  with assms StrategyGetBuffer_2q_kept [of w st y] show ?thesis by (simp add: queues_kept_def)
next
  case False
  from StrategyGetBuffer_same_setup [OF False assms(2)] assms(1) show ?thesis
    by (rule queues_kept_same_setup)
qed

lemma BufferUnpinned_other_policy:
  assumes "BufferReplacementPolicy w \<noteq> POLICY_2Q" and "BufferUnpinned i w = Some y"
  shows "a1Head (StrategyControl (snd y)) = a1Head (StrategyControl w) \<and>
         BufferReplacementPolicy (snd y) = BufferReplacementPolicy w"
  using assms
  by (auto simp: BufferUnpinned_def move_to_tail_def append_new_def prim_defs Let_def
      split: if_splits option.splits prod.splits sum.splits)

lemma BufferUnpinned_kept:
  assumes "queues_kept w" and "BufferUnpinned i w = Some y"
  shows "queues_kept (snd y)"
proof (cases "BufferReplacementPolicy w = POLICY_2Q")
  case False
  with BufferUnpinned_other_policy [OF False assms(2)] assms(1) show ?thesis
    by (simp add: queues_kept_def)
next
  case True
  show ?thesis
  proof (cases "valid_index w i \<and> \<not> BufFreelistLock w")
    case False
    with assms(2) have "snd y = w" by (auto simp: BufferUnpinned_def Let_def split: if_splits)
    with assms(1) show ?thesis by simp
  next
    case v: True
    from assms(1) True obtain ms as where q: "main_queue w ms" "a1_queue w as" "set ms \<inter> set as = {}"
      by (auto simp: queues_kept_def two_queues_def)
    from unpinned_2q [OF True _ _ q, of i] v assms(2)
    have "main_queue (snd y) (fst (spec_unpinned_2q (nat i) ms as))"
      "a1_queue (snd y) (snd (spec_unpinned_2q (nat i) ms as))"
      "BufferReplacementPolicy (snd y) = POLICY_2Q" by auto
    moreover have "set (fst (spec_unpinned_2q (nat i) ms as)) \<inter> set (snd (spec_unpinned_2q (nat i) ms as)) = {}"
    proof -
      from q(1,2) have "distinct ms" "distinct as"
        by (simp_all add: main_queue_def a1_queue_def queue_def)
      with q(3) set_remove1_subset [of "nat i" ms] set_remove1_subset [of "nat i" as]
      show ?thesis by (auto simp: spec_unpinned_2q_def)
    qed
    ultimately have "two_queues (snd y)" unfolding two_queues_def by blast
    with \<open>BufferReplacementPolicy (snd y) = POLICY_2Q\<close> show ?thesis by (simp add: queues_kept_def)
  qed
qed

lemma step_kept:
  assumes "queues_kept w" and "step c w = Some w'"
  shows "queues_kept w'"
proof (cases c)
  case (GetBuffer st)
  with assms(2) obtain y where "StrategyGetBuffer st w = Some y" "w' = snd (snd y)" by auto
  with StrategyGetBuffer_kept [OF assms(1)] show ?thesis by simp
next
  case (OnUnpinned i)
  with assms(2) obtain y where "BufferUnpinned i w = Some y" "w' = snd y" by auto
  with BufferUnpinned_kept [OF assms(1)] show ?thesis by simp
next
  case Initialize
  with assms show ?thesis by (simp add: StrategyInitialize_def)
next
  case (FreeBuffer b)
  have "same_setup w (StrategyFreeBuffer b w)"
    by (simp add: same_setup_def same_queues_def StrategyFreeBuffer_def prim_defs Let_def)
  with FreeBuffer assms show ?thesis by (auto intro: queues_kept_same_setup)
next
  case (SyncStart a b)
  have "same_setup w (snd (StrategySyncStart a b w))"
    by (simp add: same_setup_def same_queues_def StrategySyncStart_def prim_defs Let_def)
  with SyncStart assms show ?thesis by (auto intro: queues_kept_same_setup)
next
  case (NotifyBgWriter l)
  have "same_setup w (StrategyNotifyBgWriter l w)"
    by (simp add: same_setup_def same_queues_def StrategyNotifyBgWriter_def prim_defs Let_def)
  with NotifyBgWriter assms show ?thesis by (auto intro: queues_kept_same_setup)
next
  case (SetCounts b rc uc)
  have "same_setup w (upd_buf b (\<lambda>d. d\<lparr>refcount := rc, usage_count := uc\<rparr>) w)"
    by (simp add: same_setup_def same_queues_def prim_defs)
  with SetCounts assms show ?thesis by (auto intro: queues_kept_same_setup)
next
  case (UnlockHdr b)
  with assms same_setup_steps(2) [of w b] show ?thesis by (auto intro: queues_kept_same_setup)
next
  case ReleaseFreelistLock
  have "same_setup w (LWLockRelease w)" by (simp add: same_setup_def same_queues_def prim_defs)
  with ReleaseFreelistLock assms show ?thesis by (auto intro: queues_kept_same_setup)
next
  case AcquireFreelistLock
  have "same_setup w (LWLockAcquire w)" by (simp add: same_setup_def same_queues_def prim_defs)
  with AcquireFreelistLock assms show ?thesis by (auto intro: queues_kept_same_setup)
qed

lemma run_kept: "queues_kept w \<Longrightarrow> run cs w = Some w' \<Longrightarrow> queues_kept w'"
proof (induction cs arbitrary: w)
  case Nil
  then show ?case by simp
next
  case (Cons c cs)
  from Cons.prems(2) obtain w1 where w1: "step c w = Some w1" "run cs w1 = Some w'"
    by (auto split: option.splits)
  from step_kept [OF Cons.prems(1) w1(1)] Cons.IH w1(2) show ?case by blast
qed

lemma initialized_kept: "queues_kept (StrategyInitialize False True w0)"
proof -
  let ?w = "StrategyInitialize False True w0"
  have "main_queue ?w [] \<and> a1_queue ?w [] \<and> set ([]::nat list) \<inter> set ([]::nat list) = {}"
    by (simp add: main_queue_def a1_queue_def queue_def StrategyInitialize_def prim_defs)
  then have "two_queues ?w" unfolding two_queues_def by blast
  moreover have "a1Head (StrategyControl ?w) = None"
    by (simp add: StrategyInitialize_def prim_defs)
  ultimately show ?thesis by (simp add: queues_kept_def)
qed

lemma on_queue_None: "\<not> on_queue B None f"
  by (auto elim: on_queue.cases)

lemma on_queue_seg:
  "seg B p xs h t None \<Longrightarrow> on_queue B h f \<longleftrightarrow> f \<in> set xs"
proof (induction xs arbitrary: p h)
  case Nil
  then show ?case by (simp add: on_queue_None)
next
  case (Cons x xs)
  from Cons.prems have h: "h = Some x" and s: "seg B (Some x) xs (next_ptr (B x)) t None" by auto
  have "on_queue B (Some x) f \<longleftrightarrow> f = x \<or> on_queue B (next_ptr (B x)) f"
    by (auto intro: on_queue.intros elim: on_queue.cases)
  with Cons.IH [OF s] h show ?case by auto
qed

lemma queues_kept_apart:
  assumes "queues_kept w"
  shows "\<not> (in_main w f \<and> in_a1 w f)"
proof (cases "BufferReplacementPolicy w = POLICY_2Q")
  case False
  with assms show ?thesis by (simp add: queues_kept_def in_a1_def on_queue_None)
next
  case True
  with assms obtain ms as where q: "main_queue w ms" "a1_queue w as" "set ms \<inter> set as = {}"
    by (auto simp: queues_kept_def two_queues_def)
  from q(1) have "in_main w f \<longleftrightarrow> f \<in> set ms"
    by (auto simp: main_queue_def queue_def in_main_def dest: on_queue_seg)
  moreover from q(2) have "in_a1 w f \<longleftrightarrow> f \<in> set as"
    by (auto simp: a1_queue_def queue_def in_a1_def dest: on_queue_seg)
  ultimately show ?thesis using q(3) by auto
qed

text \<open>
  C7, amended. In every state a run of calls reaches from \<^verbatim>\<open>StrategyInitialize\<close>, whatever
  the policy the pool was started with, no frame is both in the main victim queue and in
  the A1 queue. (Membership of the freelist is independent of both.)
\<close>

theorem victim_queues_disjoint:
  assumes "run cs (StrategyInitialize False True w0) = Some w"
  shows "\<not> (in_main w f \<and> in_a1 w f)"
  using run_kept [OF initialized_kept assms] by (rule queues_kept_apart)

subsection \<open>The 2Q claims and the partition of the frames\<close>

lemmas queue_eval = main_queue_def a1_queue_def queue_def

text \<open>
  C4. Under 2Q, with the freelist empty and the two queues well formed, the call does what
  the specification's selection says on the queues as lists: it counts A1; if A1 holds at
  least \<open>NBuffers div 2\<close> frames or the main queue is empty it returns the first frame of A1
  with \<open>refcount = 0\<close> and A1 is left without it, otherwise it returns the first such frame
  of the main queue and the main queue is left without it; the chosen scan finding nothing
  is the error. In particular A1 one short of the threshold and a non-empty main queue
  select from the main queue, and A1 at the threshold selects from A1.
\<close>

theorem two_q_victim_selection:
  assumes "BufferReplacementPolicy w = POLICY_2Q" and "0 \<le> NBuffers w"
    and "firstFreeBuffer (StrategyControl w) < 0"
    and "main_queue w ms" and "a1_queue w as" and "set ms \<inter> set as = {}"
    and "\<forall>i\<in>set (ms @ as). buf_id (BufferDescriptors w i) = int i \<and> int i < NBuffers w"
  shows "(case spec_select_2q (NBuffers w) (\<lambda>i. refcount (BufferDescriptors w i) = 0) ms as of
           (res, ms', as') \<Rightarrow>
             \<exists>w'. StrategyGetBuffer None w =
                     Some ((case res of Inl e \<Rightarrow> Inl e | Inr v \<Rightarrow> Inr (v, True)), None, w') \<and>
                  main_queue w' ms' \<and> a1_queue w' as') \<and>
         (int (length as) = NBuffers w div 2 - 1 \<and> ms \<noteq> [] \<longrightarrow>
            spec_select_2q (NBuffers w) (\<lambda>i. refcount (BufferDescriptors w i) = 0) ms as =
              (case find (\<lambda>i. refcount (BufferDescriptors w i) = 0) ms of
                 None \<Rightarrow> (Inl NoUnpinnedBuffers, ms, as)
               | Some v \<Rightarrow> (Inr v, remove1 v ms, as))) \<and>
         (int (length as) = NBuffers w div 2 \<longrightarrow>
            spec_select_2q (NBuffers w) (\<lambda>i. refcount (BufferDescriptors w i) = 0) ms as =
              (case find (\<lambda>i. refcount (BufferDescriptors w i) = 0) as of
                 None \<Rightarrow> (Inl NoUnpinnedBuffers, ms, as)
               | Some v \<Rightarrow> (Inr v, ms, remove1 v as)))"
  using get_buffer_2q_refines [OF assms] by (simp add: spec_select_2q_def)

theorem two_q_victim_selection_witness:
  "(\<exists>w w'. run (unpin 0 @ unpin 1 @ unpin 2 @ unpin 3 @ unpin 1) (drained_pool 8 POLICY_2Q) = Some w \<and>
      NBuffers w = 8 \<and> main_queue w [1] \<and> a1_queue w [0, 2, 3] \<and>
      StrategyGetBuffer None w = Some (Inr (1, True), None, w') \<and>
      main_queue w' [] \<and> a1_queue w' [0, 2, 3]) \<and>
   (\<exists>w w'. run (unpin 0 @ unpin 1 @ unpin 2 @ unpin 3 @ unpin 4 @ unpin 1)
              (drained_pool 8 POLICY_2Q) = Some w \<and>
      NBuffers w = 8 \<and> main_queue w [1] \<and> a1_queue w [0, 2, 3, 4] \<and>
      StrategyGetBuffer None w = Some (Inr (0, True), None, w') \<and>
      main_queue w' [1] \<and> a1_queue w' [2, 3, 4])"
proof
  have "\<exists>w. run (unpin 0 @ unpin 1 @ unpin 2 @ unpin 3 @ unpin 1) (drained_pool 8 POLICY_2Q) = Some w \<and>
      BufferReplacementPolicy w = POLICY_2Q \<and> NBuffers w = 8 \<and>
      firstFreeBuffer (StrategyControl w) < 0 \<and> main_queue w [1] \<and> a1_queue w [0, 2, 3] \<and>
      (\<forall>i\<in>set ([1] @ [0, 2, 3]). buf_id (BufferDescriptors w i) = int i \<and> int i < NBuffers w) \<and>
      refcount (BufferDescriptors w 1) = 0"
    by (simp add: eval_defs queue_eval)
  then obtain w where w: "run (unpin 0 @ unpin 1 @ unpin 2 @ unpin 3 @ unpin 1) (drained_pool 8 POLICY_2Q) = Some w"
      "BufferReplacementPolicy w = POLICY_2Q" "NBuffers w = 8"
      "firstFreeBuffer (StrategyControl w) < 0" "main_queue w [1]" "a1_queue w [0, 2, 3]"
      "\<forall>i\<in>set ([1] @ [0, 2, 3]). buf_id (BufferDescriptors w i) = int i \<and> int i < NBuffers w"
      "refcount (BufferDescriptors w 1) = 0"
    by blast
  have "0 \<le> NBuffers w" "set [1::nat] \<inter> set [0, 2, 3] = {}" using w(3) by simp_all
  from two_q_victim_selection [OF w(2) this(1) w(4,5,6) this(2) w(7)] w(3,8)
  have "\<exists>w'. StrategyGetBuffer None w = Some (Inr (1, True), None, w') \<and>
      main_queue w' [] \<and> a1_queue w' [0, 2, 3]"
    by (simp add: spec_select_2q_def)
  with w show "\<exists>w w'. run (unpin 0 @ unpin 1 @ unpin 2 @ unpin 3 @ unpin 1) (drained_pool 8 POLICY_2Q) = Some w \<and>
      NBuffers w = 8 \<and> main_queue w [1] \<and> a1_queue w [0, 2, 3] \<and>
      StrategyGetBuffer None w = Some (Inr (1, True), None, w') \<and>
      main_queue w' [] \<and> a1_queue w' [0, 2, 3]" by blast
next
  have "\<exists>w. run (unpin 0 @ unpin 1 @ unpin 2 @ unpin 3 @ unpin 4 @ unpin 1) (drained_pool 8 POLICY_2Q) = Some w \<and>
      BufferReplacementPolicy w = POLICY_2Q \<and> NBuffers w = 8 \<and>
      firstFreeBuffer (StrategyControl w) < 0 \<and> main_queue w [1] \<and> a1_queue w [0, 2, 3, 4] \<and>
      (\<forall>i\<in>set ([1] @ [0, 2, 3, 4]). buf_id (BufferDescriptors w i) = int i \<and> int i < NBuffers w) \<and>
      refcount (BufferDescriptors w 0) = 0"
    by (simp add: eval_defs queue_eval)
  then obtain w where w: "run (unpin 0 @ unpin 1 @ unpin 2 @ unpin 3 @ unpin 4 @ unpin 1) (drained_pool 8 POLICY_2Q) = Some w"
      "BufferReplacementPolicy w = POLICY_2Q" "NBuffers w = 8"
      "firstFreeBuffer (StrategyControl w) < 0" "main_queue w [1]" "a1_queue w [0, 2, 3, 4]"
      "\<forall>i\<in>set ([1] @ [0, 2, 3, 4]). buf_id (BufferDescriptors w i) = int i \<and> int i < NBuffers w"
      "refcount (BufferDescriptors w 0) = 0"
    by blast
  have "0 \<le> NBuffers w" "set [1::nat] \<inter> set [0, 2, 3, 4] = {}" using w(3) by simp_all
  from two_q_victim_selection [OF w(2) this(1) w(4,5,6) this(2) w(7)] w(3,8)
  have "\<exists>w'. StrategyGetBuffer None w = Some (Inr (0, True), None, w') \<and>
      main_queue w' [1] \<and> a1_queue w' [2, 3, 4]"
    by (simp add: spec_select_2q_def)
  with w show "\<exists>w w'. run (unpin 0 @ unpin 1 @ unpin 2 @ unpin 3 @ unpin 4 @ unpin 1)
              (drained_pool 8 POLICY_2Q) = Some w \<and>
      NBuffers w = 8 \<and> main_queue w [1] \<and> a1_queue w [0, 2, 3, 4] \<and>
      StrategyGetBuffer None w = Some (Inr (0, True), None, w') \<and>
      main_queue w' [1] \<and> a1_queue w' [2, 3, 4]" by blast
qed

text \<open>
  C6. Under 2Q, with the freelist lock free and the two queues well formed,
  \<^verbatim>\<open>BufferUnpinned\<close> does what the specification's three-way dispatch says on the queues as
  lists: a frame of the main queue moves to its tail, a frame of A1 leaves A1 and is
  appended to the main queue, any other frame is appended to A1. With eight frames,
  unpinning 0, 1, 2 puts all three in A1; unpinning 1 again gives A1 = [0, 2] and
  main = [1], and the next \<^verbatim>\<open>StrategyGetBuffer\<close> returns frame 1 from the main queue.
\<close>

theorem unpinned_2q_dispatch:
  "(\<forall>w i ms as.
      BufferReplacementPolicy w = POLICY_2Q \<and> \<not> BufFreelistLock w \<and> valid_index w i \<and>
      main_queue w ms \<and> a1_queue w as \<and> set ms \<inter> set as = {} \<longrightarrow>
      (\<exists>w'. BufferUnpinned i w = Some (Inr (), w') \<and>
            main_queue w' (fst (spec_unpinned_2q (nat i) ms as)) \<and>
            a1_queue w' (snd (spec_unpinned_2q (nat i) ms as)))) \<and>
   (\<exists>w. run (unpin 0 @ unpin 1 @ unpin 2) (drained_pool 8 POLICY_2Q) = Some w \<and>
        main_queue w [] \<and> a1_queue w [0, 1, 2]) \<and>
   (\<exists>w y. run (unpin 0 @ unpin 1 @ unpin 2 @ unpin 1) (drained_pool 8 POLICY_2Q) = Some w \<and>
        main_queue w [1] \<and> a1_queue w [0, 2] \<and>
        StrategyGetBuffer None w = Some y \<and> fst y = Inr (1, True) \<and>
        main_queue (snd (snd y)) [] \<and> a1_queue (snd (snd y)) [0, 2])"
proof (intro conjI allI impI)
  fix w i ms as
  assume "BufferReplacementPolicy w = POLICY_2Q \<and> \<not> BufFreelistLock w \<and> valid_index w i \<and>
      main_queue w ms \<and> a1_queue w as \<and> set ms \<inter> set as = {}"
  then show "\<exists>w'. BufferUnpinned i w = Some (Inr (), w') \<and>
            main_queue w' (fst (spec_unpinned_2q (nat i) ms as)) \<and>
            a1_queue w' (snd (spec_unpinned_2q (nat i) ms as))"
    using unpinned_2q [of w i ms as] by blast
next
  show "\<exists>w. run (unpin 0 @ unpin 1 @ unpin 2) (drained_pool 8 POLICY_2Q) = Some w \<and>
        main_queue w [] \<and> a1_queue w [0, 1, 2]"
    by (simp add: eval_defs queue_eval)
next
  show "\<exists>w y. run (unpin 0 @ unpin 1 @ unpin 2 @ unpin 1) (drained_pool 8 POLICY_2Q) = Some w \<and>
        main_queue w [1] \<and> a1_queue w [0, 2] \<and>
        StrategyGetBuffer None w = Some y \<and> fst y = Inr (1, True) \<and>
        main_queue (snd (snd y)) [] \<and> a1_queue (snd (snd y)) [0, 2]"
    by (simp add: eval_defs queue_eval)
qed

theorem unpinned_2q_dispatch_witness:
  "\<exists>w w'. run (unpin 0 @ unpin 1 @ unpin 2) (drained_pool 8 POLICY_2Q) = Some w \<and>
      BufferReplacementPolicy w = POLICY_2Q \<and> \<not> BufFreelistLock w \<and> valid_index w 1 \<and>
      main_queue w [] \<and> a1_queue w [0, 1, 2] \<and>
      BufferUnpinned 1 w = Some (Inr (), w') \<and> main_queue w' [1] \<and> a1_queue w' [0, 2]"
proof -
  have "\<exists>w. run (unpin 0 @ unpin 1 @ unpin 2) (drained_pool 8 POLICY_2Q) = Some w \<and>
      BufferReplacementPolicy w = POLICY_2Q \<and> \<not> BufFreelistLock w \<and> valid_index w 1 \<and>
      main_queue w [] \<and> a1_queue w [0, 1, 2]"
    by (simp add: eval_defs queue_eval)
  then obtain w where w: "run (unpin 0 @ unpin 1 @ unpin 2) (drained_pool 8 POLICY_2Q) = Some w"
      "BufferReplacementPolicy w = POLICY_2Q \<and> \<not> BufFreelistLock w \<and> valid_index w 1 \<and>
       main_queue w [] \<and> a1_queue w [0, 1, 2] \<and> set ([]::nat list) \<inter> set [0, 1, 2] = {}"
    by auto
  from unpinned_2q_dispatch w(2)
  have "\<exists>w'. BufferUnpinned 1 w = Some (Inr (), w') \<and>
            main_queue w' (fst (spec_unpinned_2q (nat 1) [] [0, 1, 2])) \<and>
            a1_queue w' (snd (spec_unpinned_2q (nat 1) [] [0, 1, 2]))"
    by blast
  then have "\<exists>w'. BufferUnpinned 1 w = Some (Inr (), w') \<and> main_queue w' [1] \<and> a1_queue w' [0, 2]"
    by (simp add: spec_unpinned_2q_def)
  with w show ?thesis by blast
qed

lemma on_queue_here [simp]: "on_queue B (Some f) f"
  by (rule on_queue.here)

text \<open>
  C7, as stated, fails. Frame 0 is handed out from the freelist, pinned and unpinned, which
  puts it in A1, and then released with \<^verbatim>\<open>StrategyFreeBuffer\<close>, which pushes it on the
  freelist without taking it out of A1: it is in the freelist and in A1 at once. So it is
  when the hook runs on a frame that never left the freelist.
\<close>

theorem freelist_and_a1_overlap:
  "map_option (in_at_most_one 0)
     (run [GetBuffer None, SetCounts 0 1 1, UnlockHdr 0, ReleaseFreelistLock,
           SetCounts 0 0 1, OnUnpinned 0, FreeBuffer 0]
        (StrategyInitialize False True (InitBufferPool 8 POLICY_2Q))) = Some False \<and>
   map_option (in_at_most_one 0)
     (run [OnUnpinned 0] (StrategyInitialize False True (InitBufferPool 8 POLICY_2Q))) =
     Some False"
  by (simp add: eval_defs in_at_most_one_def in_freelist_def in_a1_def in_main_def on_queue_None)

theorem victim_queues_disjoint_witness:
  "\<exists>w. run [GetBuffer None, SetCounts 0 1 1, UnlockHdr 0, ReleaseFreelistLock,
           SetCounts 0 0 1, OnUnpinned 0, FreeBuffer 0]
        (StrategyInitialize False True (InitBufferPool 8 POLICY_2Q)) = Some w \<and>
       in_a1 w 0 \<and> \<not> (in_main w 0 \<and> in_a1 w 0)"
proof -
  have "\<exists>w. run [GetBuffer None, SetCounts 0 1 1, UnlockHdr 0, ReleaseFreelistLock,
           SetCounts 0 0 1, OnUnpinned 0, FreeBuffer 0]
        (StrategyInitialize False True (InitBufferPool 8 POLICY_2Q)) = Some w \<and> in_a1 w 0"
    by (simp add: eval_defs in_a1_def)
  then obtain w where w: "run [GetBuffer None, SetCounts 0 1 1, UnlockHdr 0, ReleaseFreelistLock,
           SetCounts 0 0 1, OnUnpinned 0, FreeBuffer 0]
        (StrategyInitialize False True (InitBufferPool 8 POLICY_2Q)) = Some w" "in_a1 w 0" by blast
  from victim_queues_disjoint [OF w(1), of 0] w show ?thesis by blast
qed

subsection \<open>What the paths that take the header lock return\<close>

lemma ring_contract:
  "GetBufferFromRing s w = (Inr (Some b), s', w') \<Longrightarrow>
     refcount (BufferDescriptors w' b) = 0 \<and> buf_hdr_lock (BufferDescriptors w' b)"
  by (auto simp: GetBufferFromRing_def Let_def prim_defs split: if_splits)

lemma freelist_loop_contract:
  "freelist_loop st w = Some y \<Longrightarrow>
     (case fst y of
        Inr (Some b) \<Rightarrow> refcount (BufferDescriptors (snd (snd y)) b) = 0 \<and>
                        buf_hdr_lock (BufferDescriptors (snd (snd y)) b)
      | Inr None \<Rightarrow> True
      | Inl e \<Rightarrow> e = BufferIndexOutOfRange)"
proof (induct st w y rule: freelist_loop.raw_induct [rotated -1, consumes 1, case_names step])
  case (step loop st w y)
  show ?case
  proof (cases "0 \<le> firstFreeBuffer (StrategyControl w) \<and> valid_index w (firstFreeBuffer (StrategyControl w))")
    case False
    with step(2) show ?thesis by (auto split: if_splits)
  next
    case True
    let ?b = "nat (firstFreeBuffer (StrategyControl w))"
    let ?w3 = "LockBufHdr ?b (upd_buf ?b (\<lambda>d. d\<lparr>freeNext := FREENEXT_NOT_IN_LIST\<rparr>)
       (upd_ctl (\<lambda>c. c\<lparr>firstFreeBuffer := freeNext (BufferDescriptors w ?b)\<rparr>) w))"
    show ?thesis
    proof (cases "refcount (BufferDescriptors ?w3 ?b) = 0 \<and> usage_count (BufferDescriptors ?w3 ?b) = 0")
      case hit: True
      with step(2) True have "fst y = Inr (Some ?b)" "snd (snd y) = ?w3" by (auto simp: Let_def)
      with hit show ?thesis by (simp add: prim_defs)
    next
      case False
      with step(2) True have "loop st (UnlockBufHdr ?b ?w3) = Some y" by (auto simp: Let_def)
      from step(1) [OF this] show ?thesis .
    qed
  qed
qed

lemma clock_sweep_contract:
  "clock_sweep st tc w = Some y \<Longrightarrow>
     (case fst y of
        Inr b \<Rightarrow> refcount (BufferDescriptors (snd (snd y)) b) = 0 \<and>
                 buf_hdr_lock (BufferDescriptors (snd (snd y)) b)
      | Inl e \<Rightarrow> True)"
proof (induct st tc w y rule: clock_sweep.raw_induct [rotated -1, consumes 1, case_names step])
  case (step loop st tc w y)
  show ?case
  proof (cases "valid_index w (nextVictimBuffer (StrategyControl w))")
    case False
    with step(2) show ?thesis by auto
  next
    case True
    let ?b = "nat (nextVictimBuffer (StrategyControl w))"
    let ?w2 = "LockBufHdr ?b (advance_hand w)"
    let ?w3 = "UnlockBufHdr ?b (upd_buf ?b (\<lambda>d. d\<lparr>usage_count := usage_count d - 1\<rparr>) ?w2)"
    show ?thesis
    proof (cases "refcount (BufferDescriptors ?w2 ?b) = 0")
      case rc: True
      show ?thesis
      proof (cases "0 < usage_count (BufferDescriptors ?w2 ?b)")
        case True
        with step(2) \<open>valid_index w _\<close> rc have "loop st (NBuffers ?w2) ?w3 = Some y"
          by (simp add: Let_def)
        from step(1) [OF this] show ?thesis .
      next
        case False
        with step(2) \<open>valid_index w _\<close> rc have "fst y = Inr ?b" "snd (snd y) = ?w2"
          by (auto simp add: Let_def)
        with rc show ?thesis by (simp add: prim_defs)
      qed
    next
      case rc: False
      show ?thesis
      proof (cases "tc - 1 = 0")
        case True
        with step(2) \<open>valid_index w _\<close> rc have "fst y = Inl NoUnpinnedBuffers"
          by (auto simp add: Let_def)
        then show ?thesis by simp
      next
        case False
        with step(2) \<open>valid_index w _\<close> rc have "loop st (tc - 1) (UnlockBufHdr ?b ?w2) = Some y"
          by (simp add: Let_def)
        from step(1) [OF this] show ?thesis .
      qed
    qed
  qed
qed

lemma lru_scan_contract:
  "lru_scan w buf = Some y \<Longrightarrow>
     (case fst y of
        Some b \<Rightarrow> refcount (BufferDescriptors (snd y) b) = 0 \<and> buf_hdr_lock (BufferDescriptors (snd y) b)
      | None \<Rightarrow> True)"
proof (induct w buf y rule: lru_scan.raw_induct [rotated -1, consumes 1, case_names step])
  case (step loop w buf y)
  show ?case
  proof (cases buf)
    case None
    with step(2) show ?thesis by auto
  next
    case (Some b)
    show ?thesis
    proof (cases "refcount (BufferDescriptors (LockBufHdr b w) b) = 0")
      case True
      with step(2) Some have "y = (Some b, LockBufHdr b w)" by (simp add: Let_def)
      with True show ?thesis by (simp add: prim_defs)
    next
      case False
      with step(2) Some obtain nb where "loop (UnlockBufHdr b (LockBufHdr b w)) nb = Some y"
        by (auto simp: Let_def)
      from step(1) [OF this] show ?thesis .
    qed
  qed
qed

lemma mru_scan_contract:
  "mru_scan w buf = Some y \<Longrightarrow>
     (case fst y of
        Some b \<Rightarrow> refcount (BufferDescriptors (snd y) b) = 0 \<and> buf_hdr_lock (BufferDescriptors (snd y) b)
      | None \<Rightarrow> True)"
proof (induct w buf y rule: mru_scan.raw_induct [rotated -1, consumes 1, case_names step])
  case (step loop w buf y)
  show ?case
  proof (cases buf)
    case None
    with step(2) show ?thesis by auto
  next
    case (Some b)
    show ?thesis
    proof (cases "refcount (BufferDescriptors (LockBufHdr b w) b) = 0")
      case True
      with step(2) Some have "y = (Some b, LockBufHdr b w)" by (simp add: Let_def)
      with True show ?thesis by (simp add: prim_defs)
    next
      case False
      with step(2) Some obtain nb where "loop (UnlockBufHdr b (LockBufHdr b w)) nb = Some y"
        by (auto simp: Let_def)
      from step(1) [OF this] show ?thesis .
    qed
  qed
qed

lemma return_result_Inr:
  "return_result i st w = (Inr (b, lh), st', w') \<Longrightarrow> i = int b \<and> w' = w"
  by (auto simp: return_result_def valid_index_def split: if_splits)

lemma select_victim_contract:
  assumes "BufferReplacementPolicy w \<noteq> POLICY_2Q"
    and "\<forall>i. buf_id (BufferDescriptors w i) = int i"
    and "select_victim st w = Some (Inr (b, lh), st', w')"
  shows "refcount (BufferDescriptors w' b) = 0 \<and> buf_hdr_lock (BufferDescriptors w' b)"
proof (cases "BufferReplacementPolicy w")
  case POLICY_CLOCK
  with assms(3) have "clock_sweep st (NBuffers w) w = Some (Inr b, st', w')"
    by (auto simp: select_victim_def split: option.splits sum.splits prod.splits)
  from clock_sweep_contract [OF this] show ?thesis by simp
next
  case POLICY_LRU
  with assms(3) obtain v w1 where s: "lru_scan w (firstUnpinned (StrategyControl w)) = Some (Some v, w1)"
    and r: "return_result (buf_id (BufferDescriptors w1 v)) st w1 = (Inr (b, lh), st', w')"
    by (auto simp: select_victim_def split: option.splits sum.splits prod.splits)
  from lru_scan_same_setup [OF s] assms(2) have "buf_id (BufferDescriptors w1 v) = int v"
    by (simp add: same_setup_def)
  with return_result_Inr [OF r] have "v = b" "w' = w1" by simp_all
  with lru_scan_contract [OF s] show ?thesis by simp
next
  case POLICY_MRU
  with assms(3) obtain v w1 where s: "mru_scan w (lastUnpinned (StrategyControl w)) = Some (Some v, w1)"
    and r: "return_result (buf_id (BufferDescriptors w1 v)) st w1 = (Inr (b, lh), st', w')"
    by (auto simp: select_victim_def split: option.splits sum.splits prod.splits)
  from mru_scan_same_setup [OF s] assms(2) have "buf_id (BufferDescriptors w1 v) = int v"
    by (simp add: same_setup_def)
  with return_result_Inr [OF r] have "v = b" "w' = w1" by simp_all
  with mru_scan_contract [OF s] show ?thesis by simp
next
  case POLICY_2Q
  with assms(1) show ?thesis by simp
next
  case (POLICY_OTHER n)
  with assms(3) show ?thesis by (simp add: select_victim_def)
qed

lemma get_buffer_global_contract:
  assumes "BufferReplacementPolicy w \<noteq> POLICY_2Q"
    and "\<forall>i. buf_id (BufferDescriptors w i) = int i"
    and "get_buffer_global st w = Some (Inr (b, lh), st', w')"
  shows "refcount (BufferDescriptors w' b) = 0 \<and> buf_hdr_lock (BufferDescriptors w' b)"
proof -
  from assms(3) obtain y1 where y1: "freelist_loop st (lock_and_count w) = Some y1"
    by (auto simp: get_buffer_global_def split: option.splits)
  from freelist_loop_same_setup [OF y1] have s1: "same_setup w (snd (snd y1))"
    by (rule same_setup_trans [OF same_setup_steps(3)])
  show ?thesis
  proof (cases "fst y1 = Inr None")
    case False
    with assms(3) y1 have "fst y1 = Inr (Some b)" "snd (snd y1) = w'"
      by (cases y1; auto simp: get_buffer_global_def split: sum.splits option.splits)+
    with freelist_loop_contract [OF y1] show ?thesis by simp
  next
    case True
    with assms(3) y1 have sv: "select_victim (fst (snd y1)) (snd (snd y1)) = Some (Inr (b, lh), st', w')"
      by (cases y1) (auto simp: get_buffer_global_def)
    from s1 assms(1,2) have "BufferReplacementPolicy (snd (snd y1)) \<noteq> POLICY_2Q"
      "\<forall>i. buf_id (BufferDescriptors (snd (snd y1)) i) = int i"
      by (simp_all add: same_setup_def)
    from select_victim_contract [OF this sv] show ?thesis .
  qed
qed

text \<open>
  The part of C1 the code keeps: under CLOCK, LRU and MRU, with every frame carrying its own
  index, a frame \<^verbatim>\<open>StrategyGetBuffer\<close> returns, from the ring, the freelist or the policy, has
  \<open>refcount = 0\<close> and its header locked.
\<close>

lemma returned_frame_contract:
  assumes "BufferReplacementPolicy w \<noteq> POLICY_2Q"
    and "\<forall>i. buf_id (BufferDescriptors w i) = int i"
    and "StrategyGetBuffer st w = Some (Inr (b, lh), st', w')"
  shows "refcount (BufferDescriptors w' b) = 0 \<and> buf_hdr_lock (BufferDescriptors w' b)"
proof (cases st)
  case None
  with assms get_buffer_global_contract show ?thesis by (simp add: StrategyGetBuffer_def)
next
  case (Some s)
  obtain r s1 w1 where g: "GetBufferFromRing s w = (r, s1, w1)" by (cases "GetBufferFromRing s w") auto
  from ring_same_setup [OF g] have s1: "same_setup w w1" .
  show ?thesis
  proof (cases "r = Inr None")
    case False
    with assms(3) Some g have "r = Inr (Some b)" "w1 = w'"
      by (auto simp: StrategyGetBuffer_def split: sum.splits option.splits)
    with ring_contract g show ?thesis by blast
  next
    case True
    with assms(3) Some g have gg: "get_buffer_global (Some s1) w1 = Some (Inr (b, lh), st', w')"
      by (auto simp: StrategyGetBuffer_def)
    from s1 assms(1,2) have "BufferReplacementPolicy w1 \<noteq> POLICY_2Q"
      "\<forall>i. buf_id (BufferDescriptors w1 i) = int i"
      by (simp_all add: same_setup_def)
    from get_buffer_global_contract [OF this gg] show ?thesis .
  qed
qed

subsection \<open>Every frame pinned\<close>

lemma clock_all_pinned:
  assumes "NBuffers w = int n" and "0 < k"
    and "valid_index w (nextVictimBuffer (StrategyControl w))"
    and "\<forall>i<n. 0 < refcount (BufferDescriptors w i)"
  shows "\<exists>w'. clock_sweep st (int k) w = Some (Inl NoUnpinnedBuffers, st, w') \<and>
           counts w' fs = counts w fs \<and>
           nextVictimBuffer (StrategyControl w') =
             (nextVictimBuffer (StrategyControl w) + int k) mod int n"
  using assms
proof (induction k arbitrary: w)
  case 0
  then show ?case by simp
next
  case (Suc k)
  let ?h = "nextVictimBuffer (StrategyControl w)"
  let ?b = "nat ?h"
  let ?w2 = "UnlockBufHdr ?b (LockBufHdr ?b (advance_hand w))"
  from Suc.prems(1,3) have h: "0 \<le> ?h" "?h < int n" by (simp_all add: valid_index_def)
  then have bn: "?b < n" by simp
  with Suc.prems(4) have pinned: "refcount (BufferDescriptors w ?b) \<noteq> 0" by auto
  have hand2: "nextVictimBuffer (StrategyControl ?w2) = (?h + 1) mod int n"
  proof (cases "?h + 1 = int n")
    case True
    then have "(?h + 1) mod int n = 0" by simp
    with True Suc.prems(1) show ?thesis by (simp add: prim_defs advance_hand_def Let_def)
  next
    case False
    with h have "?h + 1 < int n" by simp
    with h Suc.prems(1) show ?thesis by (simp add: prim_defs advance_hand_def Let_def)
  qed
  have c2: "counts ?w2 fs = counts w fs"
    by (simp add: counts_def prim_defs advance_hand_def Let_def)
  have N2: "NBuffers ?w2 = int n" using Suc.prems(1) by (simp add: prim_defs advance_hand_def Let_def)
  show ?case
  proof (cases "k = 0")
    case True
    with Suc.prems(3) pinned have "clock_sweep st (int (Suc k)) w = Some (Inl NoUnpinnedBuffers, st, ?w2)"
      by (subst clock_sweep.simps) (simp add: Let_def prim_defs advance_hand_def)
    with hand2 c2 True show ?thesis by simp
  next
    case False
    with Suc.prems(3) pinned have step: "clock_sweep st (int (Suc k)) w = clock_sweep st (int k) ?w2"
      by (subst clock_sweep.simps) (simp add: Let_def prim_defs advance_hand_def)
    have v2: "valid_index ?w2 (nextVictimBuffer (StrategyControl ?w2))"
      using hand2 N2 h by (simp add: valid_index_def)
    have p2: "\<forall>i<n. 0 < refcount (BufferDescriptors ?w2 i)"
      using Suc.prems(4) by (simp add: prim_defs advance_hand_def Let_def)
    from False have "0 < k" by simp
    from Suc.IH [OF N2 this v2 p2] obtain w' where
      w': "clock_sweep st (int k) ?w2 = Some (Inl NoUnpinnedBuffers, st, w')"
      "counts w' fs = counts ?w2 fs"
      "nextVictimBuffer (StrategyControl w') = (nextVictimBuffer (StrategyControl ?w2) + int k) mod int n"
      by blast
    have "((?h + 1) mod int n + int k) mod int n = (?h + int (Suc k)) mod int n"
    proof -
      have "((?h + 1) mod int n + int k) mod int n = ((?h + 1) + int k) mod int n"
        by (rule mod_add_left_eq)
      also have "(?h + 1) + int k = ?h + int (Suc k)" by simp
      finally show ?thesis .
    qed
    with w' step hand2 c2 show ?thesis by simp
  qed
qed

text \<open>
  The part of C2 the code keeps. Under CLOCK, with the freelist empty and each of the
  \<open>n\<close> frames pinned, the call fails with \<^verbatim>\<open>NoUnpinnedBuffers\<close> after the hand went once
  round the pool: it is back where it started, and no pin count or usage count changed.
\<close>

lemma clock_no_unpinned_buffers:
  assumes "BufferReplacementPolicy w = POLICY_CLOCK" and "NBuffers w = int n" and "0 < n"
    and "firstFreeBuffer (StrategyControl w) < 0"
    and "valid_index w (nextVictimBuffer (StrategyControl w))"
    and "\<forall>i<n. 0 < refcount (BufferDescriptors w i)"
  shows "\<exists>w'. StrategyGetBuffer None w = Some (Inl NoUnpinnedBuffers, None, w') \<and>
           counts w' fs = counts w fs \<and>
           nextVictimBuffer (StrategyControl w') = nextVictimBuffer (StrategyControl w)"
proof -
  let ?w = "lock_and_count w"
  have fl: "freelist_loop None ?w = Some (Inr None, None, ?w)"
    using assms(4) by (subst freelist_loop.simps) (simp add: lock_and_count_frame)
  have "\<exists>w'. clock_sweep None (int n) ?w = Some (Inl NoUnpinnedBuffers, None, w') \<and>
           counts w' fs = counts ?w fs \<and>
           nextVictimBuffer (StrategyControl w') =
             (nextVictimBuffer (StrategyControl ?w) + int n) mod int n"
    by (rule clock_all_pinned)
      (use assms in \<open>simp_all add: lock_and_count_frame valid_index_def\<close>)
  then obtain w' where w': "clock_sweep None (int n) ?w = Some (Inl NoUnpinnedBuffers, None, w')"
    "counts w' fs = counts ?w fs"
    "nextVictimBuffer (StrategyControl w') = (nextVictimBuffer (StrategyControl ?w) + int n) mod int n"
    by blast
  have "StrategyGetBuffer None w = Some (Inl NoUnpinnedBuffers, None, w')"
    using assms(1,2) fl w'(1)
    by (simp add: StrategyGetBuffer_def get_buffer_global_def select_victim_def lock_and_count_frame)
  moreover have "nextVictimBuffer (StrategyControl w') = nextVictimBuffer (StrategyControl w)"
    using w'(3) assms(2,5) by (simp add: lock_and_count_frame valid_index_def)
  moreover have "counts w' fs = counts w fs"
    using w'(2) by (simp add: counts_def lock_and_count_frame)
  ultimately show ?thesis by blast
qed

text \<open>
  Under 2Q, with the freelist empty, the queues well formed and every frame pinned, the walk
  of the chosen queue reaches nil and the call fails with \<^verbatim>\<open>NoUnpinnedBuffers\<close>.
\<close>

lemma two_q_no_unpinned_buffers:
  assumes "BufferReplacementPolicy w = POLICY_2Q"
    and "firstFreeBuffer (StrategyControl w) < 0"
    and "main_queue w ms" and "a1_queue w as"
    and "\<forall>i. 0 < refcount (BufferDescriptors w i)"
  shows "StrategyGetBuffer None w = Some (Inl NoUnpinnedBuffers, None, lock_and_count w)"
proof -
  let ?w = "lock_and_count w"
  let ?B = "BufferDescriptors ?w"
  have fl: "freelist_loop None ?w = Some (Inr None, None, ?w)"
    using assms(2) by (subst freelist_loop.simps) (simp add: lock_and_count_frame)
  from assms(4) have sa: "seg ?B None as (a1Head (StrategyControl ?w)) (a1Tail (StrategyControl ?w)) None"
    by (simp add: a1_queue_def queue_def lock_and_count_frame)
  from assms(3) have sm: "seg ?B None ms (firstUnpinned (StrategyControl ?w)) (lastUnpinned (StrategyControl ?w)) None"
    by (simp add: main_queue_def queue_def lock_and_count_frame)
  have none: "find (\<lambda>i. refcount (?B i) = 0) xs = None" for xs
    using assms(5) by (simp add: find_None_iff lock_and_count_frame)
  have size: "a1_size ?w (a1Head (StrategyControl ?w)) 0 = Some (int (length as))"
    using a1_size_seg [OF sa, of 0] by simp
  have "select_victim None ?w = Some (Inl NoUnpinnedBuffers, None, ?w)"
    using assms(1) size scan_a1_seg [OF sa] scan_am_seg [OF sm] none
    by (simp add: select_victim_def lock_and_count_frame)
  with fl show ?thesis by (simp add: StrategyGetBuffer_def get_buffer_global_def)
qed

text \<open>
  Under LRU and MRU no call ever fails with \<^verbatim>\<open>NoUnpinnedBuffers\<close>: where the walk reaches
  nil the null descriptor is dereferenced first.
\<close>

lemma lru_mru_never_no_unpinned_buffers:
  assumes "BufferReplacementPolicy w = POLICY_LRU \<or> BufferReplacementPolicy w = POLICY_MRU"
  shows "StrategyGetBuffer st w \<noteq> Some (Inl NoUnpinnedBuffers, st', w')"
proof
  assume g: "StrategyGetBuffer st w = Some (Inl NoUnpinnedBuffers, st', w')"
  have glob: False if gg: "get_buffer_global st1 w1 = Some (Inl NoUnpinnedBuffers, st', w')"
    and p: "BufferReplacementPolicy w1 = POLICY_LRU \<or> BufferReplacementPolicy w1 = POLICY_MRU"
    for st1 w1
  proof -
    from gg obtain y1 where y1: "freelist_loop st1 (lock_and_count w1) = Some y1"
      by (auto simp: get_buffer_global_def split: option.splits)
    from freelist_loop_same_setup [OF y1] have s1: "same_setup w1 (snd (snd y1))"
      by (rule same_setup_trans [OF same_setup_steps(3)])
    with p have p1: "BufferReplacementPolicy (snd (snd y1)) = POLICY_LRU \<or>
        BufferReplacementPolicy (snd (snd y1)) = POLICY_MRU"
      by (simp add: same_setup_def)
    show False
    proof (cases "fst y1 = Inr None")
      case False
      with gg y1 have "fst y1 = Inl NoUnpinnedBuffers"
        by (cases y1) (auto simp: get_buffer_global_def split: sum.splits option.splits)
      with freelist_loop_contract [OF y1] show False by simp
    next
      case True
      with gg y1 have "select_victim (fst (snd y1)) (snd (snd y1)) = Some (Inl NoUnpinnedBuffers, st', w')"
        by (cases y1) (auto simp: get_buffer_global_def)
      with p1 show False
        by (auto simp: select_victim_def return_result_def split: option.splits prod.splits if_splits)
    qed
  qed
  show False
  proof (cases st)
    case None
    with g assms glob show False by (simp add: StrategyGetBuffer_def)
  next
    case (Some s)
    obtain r s1 w1 where r: "GetBufferFromRing s w = (r, s1, w1)" by (cases "GetBufferFromRing s w") auto
    from ring_same_setup [OF r] assms
    have p1: "BufferReplacementPolicy w1 = POLICY_LRU \<or> BufferReplacementPolicy w1 = POLICY_MRU"
      by (simp add: same_setup_def)
    from r have "r \<noteq> Inl NoUnpinnedBuffers"
      by (auto simp: GetBufferFromRing_def Let_def split: if_splits)
    with g Some r have "get_buffer_global (Some s1) w1 = Some (Inl NoUnpinnedBuffers, st', w')"
      by (auto simp: StrategyGetBuffer_def split: sum.splits option.splits)
    from glob [OF this p1] show False .
  qed
qed

subsection \<open>The unpin hook under CLOCK, LRU and MRU\<close>

lemma moved_to_tail_main:
  assumes "main_queue w ms" and "v \<in> set ms"
    and "next_ptr (BufferDescriptors w v) = Some n"
    and "lastUnpinned (StrategyControl w) = Some l"
  shows "main_queue (snd (move_to_tail v (Some l) (previous (BufferDescriptors w v)) n w))
           (remove1 v ms @ [v])"
proof -
  let ?B = "BufferDescriptors w"
  let ?S = "splice_out ?B v"
  note f = move_to_tail_facts [OF assms(3), of l]
  from assms(1) have sm: "seg ?B None ms (firstUnpinned (StrategyControl w)) (Some l) None"
    and dm: "distinct ms"
    using assms(4) by (simp_all add: main_queue_def queue_def)
  from seg_mem_next(2) [OF sm dm assms(2) assms(3)] have n: "n \<in> set ms" "n \<noteq> v" by simp_all
  have s1: "seg ?S None (remove1 v ms)
            (if previous (?B v) = None then Some n else firstUnpinned (StrategyControl w)) (Some l) None"
    using splice_out_seg [OF sm dm assms(2)] assms(3) by (auto split: if_splits)
  have ne: "remove1 v ms \<noteq> []" using n by (metis empty_iff empty_set in_set_remove1)
  from attach_seg [OF s1 _ _, of v] dm ne
  have "seg (attach ?S (Some l) v) None (remove1 v ms @ [v])
          (if previous (?B v) = None then Some n else firstUnpinned (StrategyControl w)) (Some v) None"
    by simp
  with dm show ?thesis by (simp add: main_queue_def queue_def f)
qed

lemma append_new_facts:
  assumes "last' \<noteq> Some v"
  shows "BufferDescriptors (append_new v first' last' w) = attach (BufferDescriptors w) last' v"
    and "firstUnpinned (StrategyControl (append_new v first' last' w)) =
           (if first' = None then Some v else firstUnpinned (StrategyControl w))"
    and "lastUnpinned (StrategyControl (append_new v first' last' w)) = Some v"
  using assms
  by (auto simp: append_new_def attach_def prim_defs Let_def split: option.split)

text \<open>
  The part of C5 the code keeps. Under CLOCK, LRU and MRU the hook moves the frame to the
  tail of the main queue, and the queue stays a well-formed doubly-linked list, whenever
  the frame is not the only element of the queue: it is spliced out first when it is in
  the queue, and appended when it is in no queue and both of its links are nil.
\<close>

lemma unpinned_other_policies:
  assumes "BufferReplacementPolicy w \<noteq> POLICY_2Q" and "\<not> BufFreelistLock w" and "valid_index w i"
    and "main_queue w ms" and "ms \<noteq> [nat i]"
    and "nat i \<notin> set ms \<Longrightarrow>
           previous (BufferDescriptors w (nat i)) = None \<and> next_ptr (BufferDescriptors w (nat i)) = None"
  shows "\<exists>w'. BufferUnpinned i w = Some (Inr (), w') \<and>
           main_queue w' (remove1 (nat i) ms @ [nat i])"
proof -
  let ?v = "nat i"
  let ?w = "LWLockAcquire w"
  let ?B = "BufferDescriptors w"
  let ?first = "firstUnpinned (StrategyControl w)"
  let ?last = "lastUnpinned (StrategyControl w)"
  have q: "main_queue ?w ms" using assms(4) by (simp add: queues_lwlock)
  from assms(4) have qm: "queue ?B ms ?first ?last" by (simp add: main_queue_def)
  then have sm: "seg ?B None ms ?first ?last None" and dm: "distinct ms"
    by (simp_all add: queue_def)
  show ?thesis
  proof (cases "?v \<in> set ms")
    case True
    show ?thesis
    proof (cases "next_ptr (?B ?v)")
      case None
      with seg_mem_next(1) [OF sm dm True] have lv: "?v = last ms" by simp
      from True have ne: "ms \<noteq> []" by auto
      with lv have same: "remove1 ?v ms @ [?v] = ms"
        using remove1_last_snoc [OF dm] by simp
      from ne lv obtain ys where ys: "ms = ys @ [?v]" by (metis append_butlast_last_id)
      with assms(5) have "ys \<noteq> []" by auto
      with sm ys have "previous (?B ?v) = Some (last ys)"
        by (auto simp: seg_snoc dest: seg_tail)
      with None assms(1-3) have "BufferUnpinned i w = Some (Inr (), LWLockRelease ?w)"
        by (simp add: BufferUnpinned_def Let_def lwlock_frame)
      with same q show ?thesis by (simp add: queues_lwlock)
    next
      case (Some n)
      from True qm obtain l where l: "?last = Some l"
        using queue_empty_iff(2) [of ?B ms ?first ?last] by auto
      let ?r = "move_to_tail ?v (Some l) (previous (BufferDescriptors ?w ?v)) n ?w"
      have nx: "next_ptr (BufferDescriptors ?w ?v) = Some n" using Some by (simp add: lwlock_frame)
      have lw: "lastUnpinned (StrategyControl ?w) = Some l" using l by (simp add: lwlock_frame)
      note m = moved_to_tail_main [OF q True nx lw]
      have ok: "fst ?r = Inr ()" by (rule move_to_tail_facts(1) [OF nx])
      have "BufferUnpinned i w = Some (Inr (), LWLockRelease (snd ?r))"
        using Some l assms(1-3) ok
        by (cases ?r) (simp add: BufferUnpinned_def Let_def lwlock_frame)
      with m show ?thesis by (simp add: queues_lwlock)
    qed
  next
    case False
    with assms(6) have links: "previous (?B ?v) = None" "next_ptr (?B ?v) = None" by simp_all
    have nl: "?last \<noteq> Some ?v"
    proof
      assume "?last = Some ?v"
      with qm have "?v \<in> set ms" by (auto dest: queue_tail_mem)
      with False show False by simp
    qed
    let ?w' = "append_new ?v ?first ?last ?w"
    note f = append_new_facts [OF nl, of ?first ?w]
    from queue_empty_iff [OF qm] have e: "?first = None \<longleftrightarrow> ?last = None" by simp
    have "queue (attach ?B ?last ?v) (ms @ [?v]) (if ?first = None then Some ?v else ?first) (Some ?v)"
      using queue_attached [OF qm False] e by simp
    then have "main_queue ?w' (ms @ [?v])"
      by (simp only: main_queue_def f lwlock_frame)
    moreover have "BufferUnpinned i w = Some (Inr (), LWLockRelease ?w')"
      using links assms(1-3) by (simp add: BufferUnpinned_def Let_def lwlock_frame)
    moreover from False have "remove1 ?v ms = ms" by (simp add: remove1_idem)
    ultimately show ?thesis by (simp add: queues_lwlock)
  qed
qed

end
